theory Spec2Isabelle
  imports Complex_Main "HOL-Library.Word"
begin

section \<open>Arrays\<close>

text \<open>
  A two-dimensional numpy array: its shape (\<open>nrows\<close>, \<open>ncols\<close>) and its rows. The shape
  is kept beside the rows because an array of shape (0, w) has no row to read w from.
  \<open>wf_array\<close> says that the rows agree with the shape.
\<close>

record 'a ndarray =
  nrows :: nat
  ncols :: nat
  cells :: "'a list list"

definition wf_array :: "'a ndarray \<Rightarrow> bool" where
  "wf_array a \<longleftrightarrow> length (cells a) = nrows a \<and> list_all (\<lambda>row. length row = ncols a) (cells a)"

text \<open>\<open>image.size\<close>: the number of elements.\<close>

definition array_size :: "'a ndarray \<Rightarrow> nat" where
  "array_size a = nrows a * ncols a"

definition full :: "nat \<Rightarrow> nat \<Rightarrow> 'a \<Rightarrow> 'a ndarray" where
  "full h w v = \<lparr>nrows = h, ncols = w, cells = replicate h (replicate w v)\<rparr>"

text \<open>
  \<open>np.full_like(image, fill_value)\<close> on an array of unsigned w-bit integers: the shape
  and the element type of \<open>image\<close>, every cell the Python integer \<open>fill_value\<close> cast to
  the element type (the cast reduces modulo \<open>2 ^ w\<close>).
\<close>

definition full_like :: "'a::len word ndarray \<Rightarrow> int \<Rightarrow> 'a word ndarray" where
  "full_like a v = full (nrows a) (ncols a) (word_of_int v)"

text \<open>\<open>np.zeros_like(image)\<close>: the shape and the element type of \<open>image\<close>.\<close>

definition zeros_like :: "'a::len word ndarray \<Rightarrow> 'a word ndarray" where
  "zeros_like a = full (nrows a) (ncols a) 0"

text \<open>
  The slice \<open>a[r0:r1, c0:c1]\<close> for \<open>0 \<le> r0 \<le> r1\<close> and \<open>0 \<le> c0 \<le> c1\<close>: numpy clips
  the bounds to the shape, so a slice that starts beyond the array is empty.
\<close>

definition slice :: "'a ndarray \<Rightarrow> nat \<Rightarrow> nat \<Rightarrow> nat \<Rightarrow> nat \<Rightarrow> 'a ndarray" where
  "slice a r0 r1 c0 c1 =
     \<lparr>nrows = min r1 (nrows a) - min r0 (nrows a),
      ncols = min c1 (ncols a) - min c0 (ncols a),
      cells = map (\<lambda>row. take (c1 - c0) (drop c0 row)) (take (r1 - r0) (drop r0 (cells a)))\<rparr>"

text \<open>The cells that the slice \<open>a[r0:r1, c0:c1]\<close> addresses.\<close>

definition slice_indices :: "'a ndarray \<Rightarrow> nat \<Rightarrow> nat \<Rightarrow> nat \<Rightarrow> nat \<Rightarrow> (nat \<times> nat) set" where
  "slice_indices a r0 r1 c0 c1 = {r0..<min r1 (nrows a)} \<times> {c0..<min c1 (ncols a)}"

text \<open>An update of the cells of the slice \<open>a[r0:r1, c0:c1]\<close> in place; the other cells stay.\<close>

definition map_slice ::
  "(nat \<Rightarrow> nat \<Rightarrow> 'a \<Rightarrow> 'a) \<Rightarrow> 'a ndarray \<Rightarrow> nat \<Rightarrow> nat \<Rightarrow> nat \<Rightarrow> nat \<Rightarrow> 'a ndarray" where
  "map_slice f a r0 r1 c0 c1 =
     a\<lparr>cells :=
         map (\<lambda>(i, row).
                map (\<lambda>(j, x). if r0 \<le> i \<and> i < r1 \<and> c0 \<le> j \<and> j < c1 then f i j x else x)
                    (enumerate 0 row))
             (enumerate 0 (cells a))\<rparr>"

text \<open>
  \<open>a[r0:r1, c0:c1] = src\<close>, where \<open>src\<close> has the shape of the slice (in this program
  it is the mask computed from the same slice of the image).
\<close>

definition assign_slice ::
  "'a ndarray \<Rightarrow> nat \<Rightarrow> nat \<Rightarrow> nat \<Rightarrow> nat \<Rightarrow> 'a ndarray \<Rightarrow> 'a ndarray" where
  "assign_slice a r0 r1 c0 c1 src =
     map_slice (\<lambda>i j x. cells src ! (i - r0) ! (j - c0)) a r0 r1 c0 c1"

text \<open>Python's \<open>range(0, stop, step)\<close> for a step of at least 1.\<close>

definition py_range :: "int \<Rightarrow> nat \<Rightarrow> nat list" where
  "py_range stop step = map (\<lambda>k. k * step) [0..<nat ((stop + int step - 1) div int step)]"

section \<open>Errors\<close>

datatype error = ValueError string | InvalidInput

text \<open>A loop whose body can fail: the first failure leaves the loop.\<close>

fun fold_err :: "('s \<Rightarrow> 'x \<Rightarrow> error + 's) \<Rightarrow> 'x list \<Rightarrow> 's \<Rightarrow> error + 's" where
  "fold_err f [] s = Inr s"
| "fold_err f (x # xs) s = (case f s x of Inl e \<Rightarrow> Inl e | Inr s' \<Rightarrow> fold_err f xs s')"

section \<open>The global threshold\<close>

text \<open>
  Modelled from the spec: \<open>cv2.calcHist\<close> is a library function and not part of the
  sources; the specification's histogram builder counts, for each of the 256 levels, the
  samples of the region equal to it, and fails with \<open>InvalidInput\<close> on a region with zero
  samples. The call in \<open>threshold\<close> asks for 256 bins over the range [0, 256), so a sample
  of a wider element type that is 256 or more is counted in no bin.
\<close>

definition bin_count :: "'a::len word ndarray \<Rightarrow> nat \<Rightarrow> nat" where
  "bin_count img level = length (filter (\<lambda>x. unat x = level) (concat (cells img)))"

definition calcHist :: "'a::len word ndarray \<Rightarrow> error + nat list" where
  "calcHist img =
     (if array_size img = 0 then Inl InvalidInput
      else Inr (map (bin_count img) [0..<256]))"

text \<open>
  Probabilities and variances are computed over the rationals: the rounding of numpy's
  floating-point numbers is not modelled.
\<close>

definition gray_level_probabilities :: "nat list \<Rightarrow> nat \<Rightarrow> rat list" where
  "gray_level_probabilities histogram num_pixels =
     map (\<lambda>bin_count. of_nat bin_count / of_nat num_pixels) histogram"

definition lower_group_probability :: "rat list \<Rightarrow> nat \<Rightarrow> rat" where
  "lower_group_probability ps t = sum_list (take (t + 1) ps)"

definition upper_group_probability :: "rat list \<Rightarrow> nat \<Rightarrow> rat" where
  "upper_group_probability ps t = sum_list (drop (t + 1) ps)"

text \<open>
  The mean and the variance of a group, as the four sums of the source compute them:
  \<open>enumerate\<close> numbers the probabilities of the group from 0, for the upper group too.
\<close>

definition group_mean :: "rat list \<Rightarrow> rat \<Rightarrow> rat" where
  "group_mean grp group_probability =
     sum_list (map (\<lambda>(gray_level, probability). of_nat gray_level * probability)
                   (enumerate 0 grp)) / group_probability"

definition group_variance :: "rat list \<Rightarrow> rat \<Rightarrow> rat \<Rightarrow> rat" where
  "group_variance grp mean group_probability =
     sum_list (map (\<lambda>(gray_level, probability). (of_nat gray_level - mean)\<^sup>2 * probability)
                   (enumerate 0 grp)) / group_probability"

text \<open>The test that makes the loop \<open>continue\<close>.\<close>

definition skipped :: "rat list \<Rightarrow> nat \<Rightarrow> bool" where
  "skipped ps t \<longleftrightarrow> lower_group_probability ps t = 0 \<or> upper_group_probability ps t = 0"

definition intraclass_variance :: "rat list \<Rightarrow> nat \<Rightarrow> rat" where
  "intraclass_variance ps t =
     (let lower_p = lower_group_probability ps t;
          upper_p = upper_group_probability ps t;
          lower_mean = group_mean (take (t + 1) ps) lower_p;
          upper_mean = group_mean (drop (t + 1) ps) upper_p;
          lower_variance = group_variance (take (t + 1) ps) lower_mean lower_p;
          upper_variance = group_variance (drop (t + 1) ps) upper_mean upper_p
      in lower_p * lower_variance + upper_p * upper_variance)"

text \<open>
  The state of the scan is \<open>(best_threshold, min_intraclass_variance)\<close>; the minimum
  starts at \<open>float('inf')\<close>, which is \<open>None\<close> here.
\<close>

definition below_min :: "rat \<Rightarrow> rat option \<Rightarrow> bool" where
  "below_min v m = (case m of None \<Rightarrow> True | Some m' \<Rightarrow> v < m')"

definition scan_step :: "rat list \<Rightarrow> int \<times> rat option \<Rightarrow> nat \<Rightarrow> int \<times> rat option" where
  "scan_step ps st t =
     (if skipped ps t then st
      else if below_min (intraclass_variance ps t) (snd st)
           then (int t, Some (intraclass_variance ps t))
           else st)"

definition otsu_scan :: "rat list \<Rightarrow> nat \<Rightarrow> int \<times> rat option" where
  "otsu_scan ps n = foldl (scan_step ps) (- 1, None) [0..<n]"

definition best_threshold :: "nat list \<Rightarrow> nat \<Rightarrow> int" where
  "best_threshold histogram num_pixels =
     fst (otsu_scan (gray_level_probabilities histogram num_pixels) (length histogram))"

definition threshold :: "'a::len word ndarray \<Rightarrow> error + 'a word ndarray" where
  "threshold img =
     (case calcHist img of
        Inl e \<Rightarrow> Inl e
      | Inr histogram \<Rightarrow> Inr (full_like img (best_threshold histogram (array_size img))))"

section \<open>The threshold on segments\<close>

definition segment_size :: "nat \<Rightarrow> nat \<Rightarrow> nat" where
  "segment_size image_extent num_segments = image_extent div num_segments + 1"

definition segment_offsets :: "'a ndarray \<Rightarrow> nat \<Rightarrow> nat \<Rightarrow> (nat \<times> nat) list" where
  "segment_offsets img segment_height segment_length =
     List.product (py_range (int (nrows img)) segment_height)
                  (py_range (int (ncols img)) segment_length)"

definition segment_step ::
  "'a::len word ndarray \<Rightarrow> nat \<Rightarrow> nat \<Rightarrow> 'a word ndarray \<Rightarrow> nat \<times> nat \<Rightarrow> error + 'a word ndarray" where
  "segment_step img segment_height segment_length threshold_mask off =
     (case off of (vertical_offset, horizontal_offset) \<Rightarrow>
        (case threshold (slice img vertical_offset (vertical_offset + segment_height)
                                     horizontal_offset (horizontal_offset + segment_length)) of
           Inl e \<Rightarrow> Inl e
         | Inr segmented_threshold_mask \<Rightarrow>
             Inr (assign_slice threshold_mask
                    vertical_offset (vertical_offset + segment_height)
                    horizontal_offset (horizontal_offset + segment_length)
                    segmented_threshold_mask)))"

definition segmented_threshold ::
  "'a::len word ndarray \<Rightarrow> int \<Rightarrow> int \<Rightarrow> error + 'a word ndarray" where
  "segmented_threshold img num_vertical_segments num_horizontal_segments =
     (if num_vertical_segments < 1
      then Inl (ValueError ''There must be at least 1 segment in vertical direction'')
      else if num_horizontal_segments < 1
      then Inl (ValueError ''There must be at least 1 segment in horizontal direction'')
      else
        let segment_height = segment_size (nrows img) (nat num_vertical_segments);
            segment_length = segment_size (ncols img) (nat num_horizontal_segments)
        in fold_err (segment_step img segment_height segment_length)
                    (segment_offsets img segment_height segment_length)
                    (zeros_like img))"

section \<open>The threshold in a sliding window\<close>

text \<open>
  A cell of a float64 array: a rational, or one of the values that are not numbers of
  the line. They arise only from the mean of an empty array and from a division by zero.
\<close>

datatype fval = Fin rat | PInf | NInf | NaN

fun fadd :: "fval \<Rightarrow> fval \<Rightarrow> fval" where
  "fadd (Fin a) (Fin b) = Fin (a + b)"
| "fadd NaN _ = NaN"
| "fadd _ NaN = NaN"
| "fadd PInf NInf = NaN"
| "fadd NInf PInf = NaN"
| "fadd PInf _ = PInf"
| "fadd _ PInf = PInf"
| "fadd NInf _ = NInf"
| "fadd _ NInf = NInf"

text \<open>A float64 divided by an unsigned integer count; numpy divides by zero without raising.\<close>

fun fdiv :: "fval \<Rightarrow> 'a::len word \<Rightarrow> fval" where
  "fdiv (Fin a) c =
     (if c = 0 then (if a = 0 then NaN else if 0 < a then PInf else NInf)
      else Fin (a / of_nat (unat c)))"
| "fdiv v c = v"

definition to_float :: "'a::len word \<Rightarrow> fval" where
  "to_float x = Fin (of_nat (unat x))"

text \<open>\<open>np.mean\<close> of an array of unsigned integers.\<close>

definition array_mean :: "'a::len word ndarray \<Rightarrow> fval" where
  "array_mean a =
     (if array_size a = 0 then NaN
      else Fin (sum_list (map (\<lambda>x. of_nat (unat x)) (concat (cells a))) / of_nat (array_size a)))"

definition add_slice ::
  "('a \<Rightarrow> 'a) \<Rightarrow> 'a ndarray \<Rightarrow> nat \<Rightarrow> nat \<Rightarrow> nat \<Rightarrow> nat \<Rightarrow> 'a ndarray" where
  "add_slice inc a r0 r1 c0 c1 = map_slice (\<lambda>i j x. inc x) a r0 r1 c0 c1"

definition window_offsets ::
  "'a ndarray \<Rightarrow> nat \<Rightarrow> nat \<Rightarrow> nat \<Rightarrow> nat \<Rightarrow> (nat \<times> nat) list" where
  "window_offsets img window_height window_length vertical_stride horizontal_stride =
     List.product
       (py_range (int (nrows img) - int window_height + int vertical_stride) vertical_stride)
       (py_range (int (ncols img) - int window_length + int horizontal_stride) horizontal_stride)"

definition window_step ::
  "'a::len word ndarray \<Rightarrow> nat \<Rightarrow> nat \<Rightarrow> fval ndarray \<times> 'a word ndarray \<Rightarrow> nat \<times> nat
     \<Rightarrow> error + (fval ndarray \<times> 'a word ndarray)" where
  "window_step img window_height window_length acc off =
     (case (acc, off) of ((threshold_mask, num_repetitions), (vertical_offset, horizontal_offset)) \<Rightarrow>
        (case threshold (slice img vertical_offset (vertical_offset + window_height)
                                     horizontal_offset (horizontal_offset + window_length)) of
           Inl e \<Rightarrow> Inl e
         | Inr window_threshold_mask \<Rightarrow>
             Inr (add_slice (\<lambda>x. fadd x (array_mean window_threshold_mask)) threshold_mask
                    vertical_offset (vertical_offset + window_height)
                    horizontal_offset (horizontal_offset + window_length),
                  add_slice (\<lambda>x. x + 1) num_repetitions
                    vertical_offset (vertical_offset + window_height)
                    horizontal_offset (horizontal_offset + window_length))))"

text \<open>The two accumulators after the loops: the sums and the counts.\<close>

definition window_accumulate ::
  "'a::len word ndarray \<Rightarrow> nat \<Rightarrow> nat \<Rightarrow> nat \<Rightarrow> nat \<Rightarrow> error + (fval ndarray \<times> 'a word ndarray)" where
  "window_accumulate img window_height window_length vertical_stride horizontal_stride =
     fold_err (window_step img window_height window_length)
       (window_offsets img window_height window_length vertical_stride horizontal_stride)
       (full (nrows img) (ncols img) (Fin 0), zeros_like img)"

text \<open>\<open>threshold_mask / num_repetitions\<close>, cell by cell.\<close>

definition divide_arrays :: "fval ndarray \<Rightarrow> 'a::len word ndarray \<Rightarrow> fval ndarray" where
  "divide_arrays s c =
     \<lparr>nrows = nrows s, ncols = ncols s,
      cells = map (\<lambda>(srow, crow). map (\<lambda>(x, k). fdiv x k) (zip srow crow)) (zip (cells s) (cells c))\<rparr>"

definition sliding_window_threshold ::
  "'a::len word ndarray \<Rightarrow> int \<Rightarrow> int \<Rightarrow> int \<Rightarrow> int \<Rightarrow> error + fval ndarray" where
  "sliding_window_threshold img window_height window_length vertical_stride horizontal_stride =
     (if window_height < 1
      then Inl (ValueError ''Window must have a height of at least 1 pixel'')
      else if window_length < 1
      then Inl (ValueError ''Window must have a length of at least 1 pixel'')
      else if vertical_stride < 1
      then Inl (ValueError ''Stride in the vertical direction must be of at least 1 pixel'')
      else if horizontal_stride < 1
      then Inl (ValueError ''Stride in the horizontal direction must be of at least 1 pixel'')
      else
        (case window_accumulate img (nat window_height) (nat window_length)
                (nat vertical_stride) (nat horizontal_stride) of
           Inl e \<Rightarrow> Inl e
         | Inr (threshold_mask, num_repetitions) \<Rightarrow>
             Inr (divide_arrays threshold_mask num_repetitions)))"

section \<open>Notions used to state the properties\<close>

text \<open>
  \<open>r\<close> is the first minimum of the scan over the candidates below \<open>n\<close>: it is not
  skipped, no candidate that is not skipped has a smaller intra-class variance, and every
  earlier one has a strictly larger one.
\<close>

definition first_minimum :: "rat list \<Rightarrow> nat \<Rightarrow> nat \<Rightarrow> bool" where
  "first_minimum ps n r \<longleftrightarrow>
     r < n \<and> \<not> skipped ps r \<and>
     (\<forall>t<n. \<not> skipped ps t \<longrightarrow> intraclass_variance ps r \<le> intraclass_variance ps t) \<and>
     (\<forall>t<r. \<not> skipped ps t \<longrightarrow> intraclass_variance ps r < intraclass_variance ps t)"

text \<open>The probabilities that \<open>threshold\<close> computes from an image.\<close>

definition image_probabilities :: "'a::len word ndarray \<Rightarrow> rat list" where
  "image_probabilities img =
     gray_level_probabilities (map (bin_count img) [0..<256]) (array_size img)"








text \<open>
  The cells of the block at the offset \<open>b\<close>, and the value that the threshold of that
  block gives to the pixel \<open>(i, j)\<close>.
\<close>

definition block_region :: "'a ndarray \<Rightarrow> nat \<Rightarrow> nat \<Rightarrow> nat \<times> nat \<Rightarrow> (nat \<times> nat) set" where
  "block_region img sh sw b = slice_indices img (fst b) (fst b + sh) (snd b) (snd b + sw)"

definition block_value ::
  "'a::len word ndarray \<Rightarrow> nat \<Rightarrow> nat \<Rightarrow> nat \<times> nat \<Rightarrow> nat \<Rightarrow> nat \<Rightarrow> 'a word \<Rightarrow> bool" where
  "block_value img sh sw b i j x \<longleftrightarrow>
     (\<exists>tb. threshold (slice img (fst b) (fst b + sh) (snd b) (snd b + sw)) = Inr tb \<and>
           x = cells tb ! (i - fst b) ! (j - snd b))"

text \<open>An array of unsigned integers converted to floating point, cell by cell.\<close>

definition astype_float :: "'a::len word ndarray \<Rightarrow> fval ndarray" where
  "astype_float m = \<lparr>nrows = nrows m, ncols = ncols m, cells = map (map to_float) (cells m)\<rparr>"

text \<open>The window placed at the offset \<open>off\<close> covers the pixel \<open>(i, j)\<close>.\<close>

definition covers :: "nat \<Rightarrow> nat \<Rightarrow> nat \<Rightarrow> nat \<Rightarrow> nat \<times> nat \<Rightarrow> bool" where
  "covers window_height window_length i j off \<longleftrightarrow>
     fst off \<le> i \<and> i < fst off + window_height \<and> snd off \<le> j \<and> j < snd off + window_length"

text \<open>
  The invariant of the two accumulators of the sliding window: both have the shape of the
  image, and every running sum is a finite number.
\<close>

definition acc_ok :: "'a::len word ndarray \<Rightarrow> fval ndarray \<times> 'a word ndarray \<Rightarrow> bool" where
  "acc_ok img acc \<longleftrightarrow>
     wf_array (fst acc) \<and> wf_array (snd acc) \<and>
     nrows (fst acc) = nrows img \<and> ncols (fst acc) = ncols img \<and>
     nrows (snd acc) = nrows img \<and> ncols (snd acc) = ncols img \<and>
     (\<forall>i<nrows img. \<forall>j<ncols img. \<exists>q. cells (fst acc) ! i ! j = Fin q)"

text \<open>A test image of unsigned 8-bit integers: the pixel \<open>(i, j)\<close> is \<open>(i + j) mod 2\<close>.\<close>

definition checkerboard :: "nat \<Rightarrow> nat \<Rightarrow> 8 word ndarray" where
  "checkerboard h w =
     \<lparr>nrows = h, ncols = w,
      cells = map (\<lambda>i. map (\<lambda>j. of_nat ((i + j) mod 2)) [0..<w]) [0..<h]\<rparr>"

section \<open>Properties\<close>

subsection \<open>The scan keeps the first minimum\<close>

lemma otsu_scan_Suc: "otsu_scan ps (Suc n) = scan_step ps (otsu_scan ps n) n"
  by (simp add: otsu_scan_def)

lemma otsu_scan_all_skipped:
  "(\<forall>t<n. skipped ps t) \<Longrightarrow> otsu_scan ps n = (- 1, None)"
proof (induction n)
  case 0
  show ?case by (simp add: otsu_scan_def)
next
  case (Suc n)
  then show ?case by (simp add: otsu_scan_Suc scan_step_def)
qed

lemma otsu_scan_first_minimum:
  "\<exists>t<n. \<not> skipped ps t \<Longrightarrow>
   \<exists>r. first_minimum ps n r \<and> otsu_scan ps n = (int r, Some (intraclass_variance ps r))"
proof (induction n)
  case 0
  then show ?case by simp
next
  case (Suc n)
  show ?case
  proof (cases "\<exists>t<n. \<not> skipped ps t")
    case True
    then obtain r where r: "first_minimum ps n r"
      and sc: "otsu_scan ps n = (int r, Some (intraclass_variance ps r))"
      using Suc.IH by blast
    show ?thesis
    proof (cases "\<not> skipped ps n \<and> intraclass_variance ps n < intraclass_variance ps r")
      case True
      then have "otsu_scan ps (Suc n) = (int n, Some (intraclass_variance ps n))"
        by (simp add: otsu_scan_Suc scan_step_def sc below_min_def)
      moreover have "first_minimum ps (Suc n) n"
        using True r unfolding first_minimum_def
        by (auto simp: less_Suc_eq)
      ultimately show ?thesis by blast
    next
      case False
      then have "otsu_scan ps (Suc n) = (int r, Some (intraclass_variance ps r))"
        by (auto simp add: otsu_scan_Suc scan_step_def sc below_min_def)
      moreover have "first_minimum ps (Suc n) r"
        using False r unfolding first_minimum_def
        by (auto simp: less_Suc_eq)
      ultimately show ?thesis by blast
    qed
  next
    case False
    then have all: "\<forall>t<n. skipped ps t" by blast
    with Suc.prems have n: "\<not> skipped ps n" by (auto simp: less_Suc_eq)
    have "otsu_scan ps (Suc n) = (int n, Some (intraclass_variance ps n))"
      using n by (simp add: otsu_scan_Suc scan_step_def otsu_scan_all_skipped [OF all] below_min_def)
    moreover have "first_minimum ps (Suc n) n"
      using n all unfolding first_minimum_def by (auto simp: less_Suc_eq)
    ultimately show ?thesis by blast
  qed
qed

subsection \<open>Sums over a group of probabilities\<close>

lemma sum_list_enumerate:
  "sum_list (map (\<lambda>(g, p). f g p) (enumerate 0 xs)) = (\<Sum>j<length xs. f j (xs ! j))"
proof -
  have "sum_list (map (\<lambda>(g, p). f g p) (enumerate 0 xs))
      = (\<Sum>j = 0..<length xs. map (\<lambda>(g, p). f g p) (enumerate 0 xs) ! j)"
    by (subst sum_list_sum_nth) simp
  also have "\<dots> = (\<Sum>j = 0..<length xs. f j (xs ! j))"
    by (rule sum.cong) (simp_all add: nth_enumerate_eq)
  finally show ?thesis by (simp add: lessThan_atLeast0)
qed

lemma sum_single_support:
  fixes h :: "nat \<Rightarrow> rat"
  assumes "k < n" "\<And>j. j < n \<Longrightarrow> j \<noteq> k \<Longrightarrow> h j = 0"
  shows "(\<Sum>j<n. h j) = h k"
proof -
  have "(\<Sum>j<n. h j) = (\<Sum>j<n. if j = k then h k else 0)"
    by (rule sum.cong) (auto simp: assms)
  also have "\<dots> = h k" using assms(1) by simp
  finally show ?thesis .
qed

lemma sum_list_single_support:
  fixes xs :: "rat list"
  assumes "k < length xs" "\<And>j. j < length xs \<Longrightarrow> j \<noteq> k \<Longrightarrow> xs ! j = 0"
  shows "sum_list xs = xs ! k"
proof -
  have "sum_list xs = (\<Sum>j<length xs. xs ! j)"
    by (simp add: sum_list_sum_nth lessThan_atLeast0)
  then show ?thesis using sum_single_support [of k "length xs" "\<lambda>j. xs ! j"] assms by simp
qed

lemma group_mean_single_support:
  assumes "k < length xs" "\<And>j. j < length xs \<Longrightarrow> j \<noteq> k \<Longrightarrow> xs ! j = 0" "xs ! k \<noteq> 0"
  shows "group_mean xs (xs ! k) = of_nat k"
proof -
  have "sum_list (map (\<lambda>(g, p). of_nat g * p) (enumerate 0 xs)) = of_nat k * xs ! k"
    unfolding sum_list_enumerate
    by (rule sum_single_support) (simp_all add: assms)
  then show ?thesis using assms(3) by (simp add: group_mean_def)
qed

lemma group_variance_single_support:
  assumes "k < length xs" "\<And>j. j < length xs \<Longrightarrow> j \<noteq> k \<Longrightarrow> xs ! j = 0"
  shows "group_variance xs (of_nat k) q = 0"
proof -
  have "sum_list (map (\<lambda>(g, p). (of_nat g - of_nat k)\<^sup>2 * p) (enumerate 0 xs))
        = (of_nat k - of_nat k)\<^sup>2 * xs ! k"
    unfolding sum_list_enumerate
    by (rule sum_single_support) (simp_all add: assms)
  then show ?thesis by (simp add: group_variance_def)
qed

lemma group_variance_nonneg:
  assumes "\<And>x. x \<in> set xs \<Longrightarrow> 0 \<le> x" "0 \<le> q"
  shows "0 \<le> group_variance xs m q"
proof -
  have "0 \<le> sum_list (map (\<lambda>(g, p). (of_nat g - m)\<^sup>2 * p) (enumerate 0 xs))"
  proof (rule sum_list_nonneg)
    fix y assume "y \<in> set (map (\<lambda>(g, p). (of_nat g - m)\<^sup>2 * p) (enumerate 0 xs))"
    then obtain g p where "(g, p) \<in> set (enumerate 0 xs)" and y: "y = (of_nat g - m)\<^sup>2 * p"
      by auto
    then have "p \<in> set xs" by (auto simp: in_set_enumerate_eq)
    then show "0 \<le> y" using assms(1) y by simp
  qed
  then show ?thesis using assms(2) by (simp add: group_variance_def)
qed

lemma intraclass_variance_nonneg:
  assumes "\<And>x. x \<in> set ps \<Longrightarrow> 0 \<le> x"
  shows "0 \<le> intraclass_variance ps t"
proof -
  have l: "\<And>x. x \<in> set (take (t + 1) ps) \<Longrightarrow> 0 \<le> x" using assms by (meson in_set_takeD)
  have u: "\<And>x. x \<in> set (drop (t + 1) ps) \<Longrightarrow> 0 \<le> x" using assms by (meson in_set_dropD)
  have lp: "0 \<le> lower_group_probability ps t"
    unfolding lower_group_probability_def by (rule sum_list_nonneg) (rule l)
  have up: "0 \<le> upper_group_probability ps t"
    unfolding upper_group_probability_def by (rule sum_list_nonneg) (rule u)
  show ?thesis
    unfolding intraclass_variance_def Let_def
    by (intro add_nonneg_nonneg mult_nonneg_nonneg lp up group_variance_nonneg l u)
qed

lemma lower_zero_iff:
  assumes "\<And>x. x \<in> set ps \<Longrightarrow> 0 \<le> x"
  shows "lower_group_probability ps t = 0 \<longleftrightarrow> (\<forall>i<length ps. i \<le> t \<longrightarrow> ps ! i = 0)"
proof -
  have l: "\<And>x. x \<in> set (take (t + 1) ps) \<Longrightarrow> 0 \<le> x" using assms by (meson in_set_takeD)
  have "lower_group_probability ps t = 0 \<longleftrightarrow> (\<forall>x\<in>set (take (t + 1) ps). x = 0)"
    unfolding lower_group_probability_def by (rule sum_list_nonneg_eq_0_iff) (rule l)
  also have "\<dots> \<longleftrightarrow> (\<forall>i<length ps. i \<le> t \<longrightarrow> ps ! i = 0)"
  proof
    assume a: "\<forall>x\<in>set (take (t + 1) ps). x = 0"
    show "\<forall>i<length ps. i \<le> t \<longrightarrow> ps ! i = 0"
    proof (intro allI impI)
      fix i assume i: "i < length ps" "i \<le> t"
      then have "take (t + 1) ps ! i = ps ! i" by simp
      moreover have "i < length (take (t + 1) ps)" using i by simp
      ultimately show "ps ! i = 0" using a by (metis nth_mem)
    qed
  next
    assume a: "\<forall>i<length ps. i \<le> t \<longrightarrow> ps ! i = 0"
    show "\<forall>x\<in>set (take (t + 1) ps). x = 0"
    proof
      fix x assume "x \<in> set (take (t + 1) ps)"
      then obtain j where j: "j < length (take (t + 1) ps)" "x = take (t + 1) ps ! j"
        by (auto simp: in_set_conv_nth)
      then have "x = ps ! j" by simp
      then show "x = 0" using a j by simp
    qed
  qed
  finally show ?thesis .
qed

lemma upper_zero_iff:
  assumes "\<And>x. x \<in> set ps \<Longrightarrow> 0 \<le> x"
  shows "upper_group_probability ps t = 0 \<longleftrightarrow> (\<forall>i<length ps. t < i \<longrightarrow> ps ! i = 0)"
proof -
  have u: "\<And>x. x \<in> set (drop (t + 1) ps) \<Longrightarrow> 0 \<le> x" using assms by (meson in_set_dropD)
  have "upper_group_probability ps t = 0 \<longleftrightarrow> (\<forall>x\<in>set (drop (t + 1) ps). x = 0)"
    unfolding upper_group_probability_def by (rule sum_list_nonneg_eq_0_iff) (rule u)
  also have "\<dots> \<longleftrightarrow> (\<forall>i<length ps. t < i \<longrightarrow> ps ! i = 0)"
  proof
    assume a: "\<forall>x\<in>set (drop (t + 1) ps). x = 0"
    show "\<forall>i<length ps. t < i \<longrightarrow> ps ! i = 0"
    proof (intro allI impI)
      fix i assume i: "i < length ps" "t < i"
      then have "drop (t + 1) ps ! (i - (t + 1)) = ps ! i" by simp
      moreover have "i - (t + 1) < length (drop (t + 1) ps)" using i by simp
      ultimately show "ps ! i = 0" using a by (metis nth_mem)
    qed
  next
    assume a: "\<forall>i<length ps. t < i \<longrightarrow> ps ! i = 0"
    show "\<forall>x\<in>set (drop (t + 1) ps). x = 0"
    proof
      fix x assume "x \<in> set (drop (t + 1) ps)"
      then obtain j where j: "j < length (drop (t + 1) ps)" "x = drop (t + 1) ps ! j"
        by (auto simp: in_set_conv_nth)
      then have "x = ps ! (t + 1 + j)" by simp
      then show "x = 0" using a j by simp
    qed
  qed
  finally show ?thesis .
qed

subsection \<open>The histogram of an image\<close>

lemma length_concat_wf:
  "wf_array a \<Longrightarrow> length (concat (cells a)) = array_size a"
proof -
  assume wf: "wf_array a"
  have "map length (cells a) = replicate (nrows a) (ncols a)"
    using wf by (auto simp: wf_array_def list_all_iff intro!: replicate_eqI)
  then show ?thesis by (simp add: length_concat array_size_def sum_list_replicate)
qed

lemma length_image_probabilities [simp]: "length (image_probabilities img) = 256"
  by (simp add: image_probabilities_def gray_level_probabilities_def)

lemma nth_image_probabilities:
  "i < 256 \<Longrightarrow> image_probabilities img ! i = of_nat (bin_count img i) / of_nat (array_size img)"
  by (simp add: image_probabilities_def gray_level_probabilities_def)

lemma gray_level_probabilities_nonneg:
  "x \<in> set (gray_level_probabilities h n) \<Longrightarrow> 0 \<le> x"
  by (auto simp: gray_level_probabilities_def)

lemma image_probabilities_nonneg: "x \<in> set (image_probabilities img) \<Longrightarrow> 0 \<le> x"
  unfolding image_probabilities_def by (rule gray_level_probabilities_nonneg)

lemma bin_count_zero_iff:
  "bin_count img i = 0 \<longleftrightarrow> (\<forall>x\<in>set (concat (cells img)). unat x \<noteq> i)"
  by (auto simp: bin_count_def filter_empty_conv)

lemma image_probability_zero_iff:
  assumes "i < 256" "array_size img \<noteq> 0"
  shows "image_probabilities img ! i = 0 \<longleftrightarrow> (\<forall>x\<in>set (concat (cells img)). unat x \<noteq> i)"
  using assms by (simp add: nth_image_probabilities bin_count_zero_iff)

lemma threshold_nonempty:
  "array_size img \<noteq> 0 \<Longrightarrow>
   threshold img = Inr (full_like img (fst (otsu_scan (image_probabilities img) 256)))"
  by (simp add: threshold_def calcHist_def best_threshold_def image_probabilities_def)


lemma skipped_image_iff:
  assumes "array_size img \<noteq> 0"
  shows "skipped (image_probabilities img) t \<longleftrightarrow>
           (\<forall>x\<in>set (concat (cells img)). unat x < 256 \<longrightarrow> t < unat x) \<or>
           (\<forall>x\<in>set (concat (cells img)). unat x < 256 \<longrightarrow> unat x \<le> t)"
proof -
  let ?ps = "image_probabilities img"
  let ?px = "set (concat (cells img))"
  have z: "\<And>i. i < 256 \<Longrightarrow> ?ps ! i = 0 \<longleftrightarrow> (\<forall>x\<in>?px. unat x \<noteq> i)"
    by (rule image_probability_zero_iff [OF _ assms])
  have "lower_group_probability ?ps t = 0 \<longleftrightarrow> (\<forall>i<length ?ps. i \<le> t \<longrightarrow> ?ps ! i = 0)"
    by (rule lower_zero_iff) (rule image_probabilities_nonneg)
  also have "\<dots> \<longleftrightarrow> (\<forall>x\<in>?px. unat x < 256 \<longrightarrow> t < unat x)"
    using z by (auto simp: not_less [symmetric])
  finally have l: "lower_group_probability ?ps t = 0 \<longleftrightarrow>
                     (\<forall>x\<in>?px. unat x < 256 \<longrightarrow> t < unat x)" .
  have "upper_group_probability ?ps t = 0 \<longleftrightarrow> (\<forall>i<length ?ps. t < i \<longrightarrow> ?ps ! i = 0)"
    by (rule upper_zero_iff) (rule image_probabilities_nonneg)
  also have "\<dots> \<longleftrightarrow> (\<forall>x\<in>?px. unat x < 256 \<longrightarrow> unat x \<le> t)"
    using z by (auto simp: not_less [symmetric])
  finally have u: "upper_group_probability ?ps t = 0 \<longleftrightarrow>
                     (\<forall>x\<in>?px. unat x < 256 \<longrightarrow> unat x \<le> t)" .
  show ?thesis unfolding skipped_def l u ..
qed

lemma single_value_all_skipped:
  assumes "array_size img \<noteq> 0" "\<forall>x\<in>set (concat (cells img)). x = v"
  shows "skipped (image_probabilities img) t"
  unfolding skipped_image_iff [OF assms(1)] using assms(2) by (cases "t < unat v") auto

subsection \<open>Images of two values\<close>

lemma intraclass_variance_two_support:
  assumes ab: "ka < kb" "kb < length ps"
    and zero: "\<And>j. j < length ps \<Longrightarrow> j \<noteq> ka \<Longrightarrow> j \<noteq> kb \<Longrightarrow> ps ! j = 0"
    and pos: "ps ! ka \<noteq> 0" "ps ! kb \<noteq> 0"
  shows "intraclass_variance ps ka = 0"
proof -
  let ?lo = "take (ka + 1) ps" and ?up = "drop (ka + 1) ps"
  let ?k = "kb - (ka + 1)"
  have lo_len: "ka < length ?lo" using ab by simp
  have lo_zero: "\<And>j. j < length ?lo \<Longrightarrow> j \<noteq> ka \<Longrightarrow> ?lo ! j = 0"
    using ab zero by simp
  have lo_k: "?lo ! ka = ps ! ka" by simp
  have up_len: "?k < length ?up" using ab by simp
  have up_zero: "\<And>j. j < length ?up \<Longrightarrow> j \<noteq> ?k \<Longrightarrow> ?up ! j = 0"
    using ab zero by simp
  have up_k: "?up ! ?k = ps ! kb" using ab by simp
  have lp: "lower_group_probability ps ka = ?lo ! ka"
    unfolding lower_group_probability_def by (rule sum_list_single_support [OF lo_len lo_zero])
  have up: "upper_group_probability ps ka = ?up ! ?k"
    unfolding upper_group_probability_def by (rule sum_list_single_support [OF up_len up_zero])
  have lo_ne: "?lo ! ka \<noteq> 0" unfolding lo_k by (rule pos(1))
  have lm: "group_mean ?lo (?lo ! ka) = of_nat ka"
    by (rule group_mean_single_support [OF lo_len lo_zero lo_ne])
  have up_ne: "?up ! ?k \<noteq> 0" unfolding up_k by (rule pos(2))
  have um: "group_mean ?up (?up ! ?k) = of_nat ?k"
    by (rule group_mean_single_support [OF up_len up_zero up_ne])
  have lv: "group_variance ?lo (of_nat ka) q = 0" for q
    by (rule group_variance_single_support [OF lo_len lo_zero])
  have uv: "group_variance ?up (of_nat ?k) q = 0" for q
    by (rule group_variance_single_support [OF up_len up_zero])
  show ?thesis
    unfolding intraclass_variance_def Let_def lp up lm um lv uv by simp
qed

lemma otsu_scan_two_support:
  assumes nonneg: "\<And>x. x \<in> set ps \<Longrightarrow> 0 \<le> x"
    and ab: "ka < kb" "kb < length ps"
    and zero: "\<And>j. j < length ps \<Longrightarrow> j \<noteq> ka \<Longrightarrow> j \<noteq> kb \<Longrightarrow> ps ! j = 0"
    and pos: "ps ! ka \<noteq> 0" "ps ! kb \<noteq> 0"
  shows "otsu_scan ps (length ps) = (int ka, Some 0)"
proof -
  have J0: "intraclass_variance ps ka = 0"
    by (rule intraclass_variance_two_support [OF ab zero pos])
  have lz: "lower_group_probability ps t = 0 \<longleftrightarrow> (\<forall>i<length ps. i \<le> t \<longrightarrow> ps ! i = 0)" for t
    by (rule lower_zero_iff) (rule nonneg)
  have uz: "upper_group_probability ps t = 0 \<longleftrightarrow> (\<forall>i<length ps. t < i \<longrightarrow> ps ! i = 0)" for t
    by (rule upper_zero_iff) (rule nonneg)
  have "\<exists>i<length ps. i \<le> ka \<and> ps ! i \<noteq> 0"
    using ab pos by (intro exI [of _ ka]) simp
  moreover have "\<exists>i<length ps. ka < i \<and> ps ! i \<noteq> 0"
    using ab pos by (intro exI [of _ kb]) simp
  ultimately have ka_ok: "\<not> skipped ps ka"
    unfolding skipped_def lz uz by simp
  have before: "skipped ps t" if "t < ka" for t
    unfolding skipped_def lz using that ab zero by auto
  have "ka < length ps" using ab by simp
  then have "\<exists>t<length ps. \<not> skipped ps t" using ka_ok by blast
  then obtain r where r: "first_minimum ps (length ps) r"
    and sc: "otsu_scan ps (length ps) = (int r, Some (intraclass_variance ps r))"
    using otsu_scan_first_minimum by blast
  have "intraclass_variance ps r \<le> 0"
    using r ka_ok ab J0 unfolding first_minimum_def by (metis less_trans)
  moreover have "0 \<le> intraclass_variance ps r" by (rule intraclass_variance_nonneg [OF nonneg])
  ultimately have Jr: "intraclass_variance ps r = 0" by simp
  have "\<not> ka < r"
  proof
    assume "ka < r"
    then have "intraclass_variance ps r < intraclass_variance ps ka"
      using r ka_ok unfolding first_minimum_def by blast
    then show False using Jr J0 by simp
  qed
  moreover have "\<not> r < ka" using before r unfolding first_minimum_def by blast
  ultimately have "r = ka" by simp
  then show ?thesis using sc Jr by simp
qed


lemma two_value_image:
  fixes img :: "'a::len word ndarray"
  assumes wf: "wf_array img"
    and px: "set (concat (cells img)) = {a, b}"
    and ab: "unat a < unat b" "unat b < 256"
  shows "array_size img \<noteq> 0"
    and "otsu_scan (image_probabilities img) 256 = (int (unat a), Some 0)"
proof -
  from px have "length (concat (cells img)) \<noteq> 0"
    by (metis insert_not_empty length_0_conv set_empty2)
  then show ne: "array_size img \<noteq> 0" using length_concat_wf [OF wf] by simp
  let ?ps = "image_probabilities img"
  have "\<And>i. i < 256 \<Longrightarrow> ?ps ! i = 0 \<longleftrightarrow> (\<forall>x\<in>set (concat (cells img)). unat x \<noteq> i)"
    by (rule image_probability_zero_iff [OF _ ne])
  then have z: "\<And>i. i < 256 \<Longrightarrow> ?ps ! i = 0 \<longleftrightarrow> unat a \<noteq> i \<and> unat b \<noteq> i"
    unfolding px by simp
  have "otsu_scan ?ps (length ?ps) = (int (unat a), Some 0)"
  proof (rule otsu_scan_two_support)
    show "\<And>x. x \<in> set ?ps \<Longrightarrow> 0 \<le> x" by (rule image_probabilities_nonneg)
    show "unat a < unat b" by (rule ab)
    show "unat b < length ?ps" using ab by simp
    show "\<And>j. j < length ?ps \<Longrightarrow> j \<noteq> unat a \<Longrightarrow> j \<noteq> unat b \<Longrightarrow> ?ps ! j = 0"
      using z by auto
    show "?ps ! unat a \<noteq> 0" using z [of "unat a"] ab by simp
    show "?ps ! unat b \<noteq> 0" using z [of "unat b"] ab by simp
  qed
  then show "otsu_scan ?ps 256 = (int (unat a), Some 0)" by simp
qed

subsection \<open>The variance of the source and of the specification\<close>



lemma sum_drop_levels:
  fixes ps :: "rat list"
  assumes "length ps = 256"
  shows "(\<Sum>j<length (drop (t + 1) ps). f (t + 1 + j) (drop (t + 1) ps ! j))
           = (\<Sum>level = t + 1..255. f level (ps ! level))"
proof -
  have "(\<Sum>j<length (drop (t + 1) ps). f (t + 1 + j) (drop (t + 1) ps ! j))
          = (\<Sum>j<256 - (t + 1). f (t + 1 + j) (ps ! (t + 1 + j)))"
    using assms by simp
  also have "\<dots> = (\<Sum>level = t + 1..255. f level (ps ! level))"
    by (rule sum.reindex_bij_witness [where i = "\<lambda>l. l - (t + 1)" and j = "\<lambda>j. t + 1 + j"]) auto
  finally show ?thesis .
qed



lemma upper_sum_levels:
  assumes "length ps = 256"
  shows "upper_group_probability ps t = (\<Sum>level = t + 1..255. ps ! level)"
proof -
  have "sum_list (drop (t + 1) ps) = (\<Sum>j<length (drop (t + 1) ps). drop (t + 1) ps ! j)"
    by (simp add: sum_list_sum_nth lessThan_atLeast0)
  also have "\<dots> = (\<Sum>level = t + 1..255. ps ! level)"
    by (rule sum_drop_levels [OF assms, of "\<lambda>j p. p"])
  finally show ?thesis by (simp add: upper_group_probability_def)
qed


subsection \<open>The selected threshold\<close>


lemma replicate_2: "replicate 2 x = [x, x]"
  by (simp add: numeral_2_eq_2)

lemma best_threshold_image:
  "best_threshold (map (bin_count img) [0..<256]) (array_size img)
     = fst (otsu_scan (image_probabilities img) 256)"
  by (simp add: best_threshold_def image_probabilities_def)





text \<open>
  Claim C2. For a non-empty image whose pixels all have one value, every one of the 256
  candidates is skipped, the chosen threshold is the sentinel -1, which is outside
  [0, 255], and \<open>threshold\<close> returns the mask filled with that sentinel
  (\<open>np.full_like\<close> with fill value -1).
\<close>

theorem single_value_image_sentinel:
  fixes img :: "'a::len word ndarray"
  assumes "array_size img \<noteq> 0" and "\<forall>x\<in>set (concat (cells img)). x = v"
  shows "(\<forall>t<256. skipped (image_probabilities img) t) \<and>
         best_threshold (map (bin_count img) [0..<256]) (array_size img) = - 1 \<and>
         best_threshold (map (bin_count img) [0..<256]) (array_size img) \<notin> {0..255} \<and>
         threshold img = Inr (full_like img (- 1))"
proof -
  have sk: "\<forall>t<256. skipped (image_probabilities img) t"
    using single_value_all_skipped [OF assms] by blast
  then have sc: "otsu_scan (image_probabilities img) 256 = (- 1, None)"
    by (rule otsu_scan_all_skipped)
  show ?thesis using sk sc threshold_nonempty [OF assms(1)] by (simp add: best_threshold_image)
qed

theorem single_value_image_sentinel_witness:
  "threshold (full 2 2 (7 :: 8 word)) = Inr (full_like (full 2 2 7) (- 1))"
  using single_value_image_sentinel [of "full 2 2 (7 :: 8 word)" 7]
  by (simp add: full_def array_size_def)

text \<open>
  Claim C9. For a non-empty image of unsigned 8-bit integers on which every candidate is
  skipped, every cell of the mask returned by \<open>threshold\<close> is 255, which is -1
  reduced modulo \<open>2 ^ 8\<close> and lies inside the intensity range [0, 255].
\<close>

theorem uint8_sentinel_wraps:
  fixes img :: "8 word ndarray"
  assumes "array_size img \<noteq> 0" and "\<forall>t<256. skipped (image_probabilities img) t"
  shows "threshold img = Inr (full (nrows img) (ncols img) 255) \<and>
         word_of_int (- 1) = (255 :: 8 word) \<and> unat (255 :: 8 word) \<in> {0..255}"
proof -
  have w: "word_of_int (- 1) = (255 :: 8 word)" by simp
  have "otsu_scan (image_probabilities img) 256 = (- 1, None)"
    using assms(2) by (rule otsu_scan_all_skipped)
  then have "threshold img = Inr (full_like img (- 1))"
    using threshold_nonempty [OF assms(1)] by simp
  then have "threshold img = Inr (full (nrows img) (ncols img) 255)"
    unfolding full_like_def w .
  then show ?thesis using w by simp
qed

theorem uint8_sentinel_wraps_witness:
  "threshold (full 1 1 (3 :: 8 word)) = Inr \<lparr>nrows = 1, ncols = 1, cells = [[255]]\<rparr>"
proof -
  have "array_size (full 1 1 (3 :: 8 word)) \<noteq> 0" by (simp add: full_def array_size_def)
  moreover have "\<forall>t<256. skipped (image_probabilities (full 1 1 (3 :: 8 word))) t"
    using single_value_all_skipped [of "full 1 1 (3 :: 8 word)" 3]
    by (simp add: full_def array_size_def)
  ultimately show ?thesis
    using uint8_sentinel_wraps [of "full 1 1 (3 :: 8 word)"] by (simp add: full_def)
qed



lemma threshold_10_200:
  "threshold \<lparr>nrows = 1, ncols = 2, cells = [[10, 200 :: 8 word]]\<rparr>
     = Inr \<lparr>nrows = 1, ncols = 2, cells = [[10, 10]]\<rparr>"
proof -
  let ?img = "\<lparr>nrows = 1, ncols = 2, cells = [[10, 200 :: 8 word]]\<rparr>"
  have "wf_array ?img" by (simp add: wf_array_def)
  moreover have "set (concat (cells ?img)) = {10, 200}" by simp
  ultimately have ne: "array_size ?img \<noteq> 0"
    and sc: "otsu_scan (image_probabilities ?img) 256 = (int (unat (10 :: 8 word)), Some 0)"
    using two_value_image [of ?img 10 200] by simp_all
  show ?thesis using threshold_nonempty [OF ne] sc
    by (simp add: full_like_def full_def replicate_2)
qed


subsection \<open>Arrays and slices\<close>

lemma wf_arrayI:
  "length (cells a) = nrows a \<Longrightarrow> (\<And>i. i < nrows a \<Longrightarrow> length (cells a ! i) = ncols a) \<Longrightarrow> wf_array a"
  by (auto simp: wf_array_def list_all_length)

lemma wf_array_length: "wf_array a \<Longrightarrow> length (cells a) = nrows a"
  by (simp add: wf_array_def)

lemma wf_array_row: "wf_array a \<Longrightarrow> i < nrows a \<Longrightarrow> length (cells a ! i) = ncols a"
  by (simp add: wf_array_def list_all_length)

lemma array_eqI:
  fixes a b :: "'a ndarray"
  assumes "wf_array a" "wf_array b" "nrows a = nrows b" "ncols a = ncols b"
    and "\<And>i j. i < nrows a \<Longrightarrow> j < ncols a \<Longrightarrow> cells a ! i ! j = cells b ! i ! j"
  shows "a = b"
proof -
  have "cells a = cells b"
  proof (rule nth_equalityI)
    show "length (cells a) = length (cells b)"
      using assms(1-3) by (simp add: wf_array_length)
    fix i assume "i < length (cells a)"
    then have i: "i < nrows a" using assms(1) by (simp add: wf_array_length)
    show "cells a ! i = cells b ! i"
    proof (rule nth_equalityI)
      show "length (cells a ! i) = length (cells b ! i)"
        using i assms(1-4) by (simp add: wf_array_row)
      fix j assume "j < length (cells a ! i)"
      then have "j < ncols a" using i assms(1) by (simp add: wf_array_row)
      then show "cells a ! i ! j = cells b ! i ! j" using i assms(5) by simp
    qed
  qed
  then show ?thesis using assms(3,4) by simp
qed

lemma wf_full [simp]: "wf_array (full h w v)"
  by (simp add: wf_array_def full_def list_all_length)

lemma shape_full [simp]: "nrows (full h w v) = h" "ncols (full h w v) = w"
  by (simp_all add: full_def)

lemma cell_full: "i < h \<Longrightarrow> j < w \<Longrightarrow> cells (full h w v) ! i ! j = v"
  by (simp add: full_def)

lemma array_size_full [simp]: "array_size (full h w v) = h * w"
  by (simp add: array_size_def)

lemma shape_slice [simp]:
  "nrows (slice a r0 r1 c0 c1) = min r1 (nrows a) - min r0 (nrows a)"
  "ncols (slice a r0 r1 c0 c1) = min c1 (ncols a) - min c0 (ncols a)"
  by (simp_all add: slice_def)

lemma wf_slice: "wf_array a \<Longrightarrow> wf_array (slice a r0 r1 c0 c1)"
proof (rule wf_arrayI)
  assume wf: "wf_array a"
  show len: "length (cells (slice a r0 r1 c0 c1)) = nrows (slice a r0 r1 c0 c1)"
    using wf by (auto simp: slice_def wf_array_length min_def)
  fix i assume "i < nrows (slice a r0 r1 c0 c1)"
  then have i: "i < r1 - r0" "r0 + i < nrows a" by (auto simp: min_def split: if_splits)
  have len_a: "length (cells a) = nrows a" using wf by (rule wf_array_length)
  have "take (r1 - r0) (drop r0 (cells a)) ! i = cells a ! (r0 + i)"
    using i len_a by (simp add: nth_drop)
  moreover have "i < length (take (r1 - r0) (drop r0 (cells a)))" using i len_a by simp
  ultimately have "cells (slice a r0 r1 c0 c1) ! i = take (c1 - c0) (drop c0 (cells a ! (r0 + i)))"
    by (simp add: slice_def)
  then show "length (cells (slice a r0 r1 c0 c1) ! i) = ncols (slice a r0 r1 c0 c1)"
    using wf i by (auto simp: wf_array_row min_def)
qed

lemma slice_whole:
  assumes "wf_array a" "nrows a \<le> r1" "ncols a \<le> c1"
  shows "slice a 0 r1 0 c1 = a"
proof -
  have "map (\<lambda>row. take c1 row) (cells a) = cells a"
    using assms by (intro map_idI) (auto simp: wf_array_def list_all_iff)
  then show ?thesis using assms by (simp add: slice_def wf_array_length min_def)
qed

lemma array_size_slice:
  "r0 < nrows a \<Longrightarrow> r0 < r1 \<Longrightarrow> c0 < ncols a \<Longrightarrow> c0 < c1 \<Longrightarrow> array_size (slice a r0 r1 c0 c1) \<noteq> 0"
  by (auto simp: array_size_def min_def)

lemma shape_map_slice [simp]:
  "nrows (map_slice f a r0 r1 c0 c1) = nrows a"
  "ncols (map_slice f a r0 r1 c0 c1) = ncols a"
  by (simp_all add: map_slice_def)

lemma length_cells_map_slice [simp]:
  "length (cells (map_slice f a r0 r1 c0 c1)) = length (cells a)"
  by (simp add: map_slice_def)

lemma row_map_slice:
  "i < length (cells a) \<Longrightarrow>
   cells (map_slice f a r0 r1 c0 c1) ! i =
     map (\<lambda>(j, x). if r0 \<le> i \<and> i < r1 \<and> c0 \<le> j \<and> j < c1 then f i j x else x)
         (enumerate 0 (cells a ! i))"
  by (simp add: map_slice_def nth_enumerate_eq)

lemma wf_map_slice: "wf_array a \<Longrightarrow> wf_array (map_slice f a r0 r1 c0 c1)"
  by (rule wf_arrayI) (simp_all add: wf_array_length wf_array_row row_map_slice)

lemma cell_map_slice:
  assumes "wf_array a" "i < nrows a" "j < ncols a"
  shows "cells (map_slice f a r0 r1 c0 c1) ! i ! j =
           (if (i, j) \<in> slice_indices a r0 r1 c0 c1 then f i j (cells a ! i ! j)
            else cells a ! i ! j)"
  using assms
  by (simp add: row_map_slice wf_array_length wf_array_row nth_enumerate_eq slice_indices_def)

lemma cell_slice:
  assumes "wf_array a" "i < nrows (slice a r0 r1 c0 c1)" "j < ncols (slice a r0 r1 c0 c1)"
  shows "cells (slice a r0 r1 c0 c1) ! i ! j = cells a ! (r0 + i) ! (c0 + j) \<and>
         (r0 + i, c0 + j) \<in> slice_indices a r0 r1 c0 c1"
proof -
  have i: "i < r1 - r0" "r0 + i < nrows a" using assms(2) by (auto simp: min_def split: if_splits)
  have j: "j < c1 - c0" "c0 + j < ncols a" using assms(3) by (auto simp: min_def split: if_splits)
  have len_a: "length (cells a) = nrows a" using assms(1) by (rule wf_array_length)
  have row: "length (cells a ! (r0 + i)) = ncols a" using assms(1) i by (simp add: wf_array_row)
  have "take (r1 - r0) (drop r0 (cells a)) ! i = cells a ! (r0 + i)"
    using i len_a by (simp add: nth_drop)
  moreover have "i < length (take (r1 - r0) (drop r0 (cells a)))" using i len_a by simp
  ultimately have "cells (slice a r0 r1 c0 c1) ! i = take (c1 - c0) (drop c0 (cells a ! (r0 + i)))"
    by (simp add: slice_def)
  then have "cells (slice a r0 r1 c0 c1) ! i ! j = cells a ! (r0 + i) ! (c0 + j)"
    using j row by (simp add: nth_drop)
  moreover have "(r0 + i, c0 + j) \<in> slice_indices a r0 r1 c0 c1"
    using i j by (auto simp: slice_indices_def)
  ultimately show ?thesis by simp
qed

subsection \<open>Ranges\<close>

lemma int_le_div_iff:
  fixes a b d :: int
  assumes "0 < d"
  shows "a \<le> b div d \<longleftrightarrow> a * d \<le> b"
proof
  assume "a \<le> b div d"
  then have "a * d \<le> (b div d) * d" using assms by (simp add: mult_right_mono)
  also have "\<dots> \<le> b"
    using assms by (metis add.commute div_mult_mod_eq le_add_same_cancel2 mult.commute pos_mod_sign)
  finally show "a * d \<le> b" .
next
  assume "a * d \<le> b"
  then have "(a * d) div d \<le> b div d" using assms by (rule zdiv_mono1)
  then show "a \<le> b div d" using assms by simp
qed

lemma py_range_length:
  assumes "0 < step"
  shows "k < length (py_range stop step) \<longleftrightarrow> int (k * step) < stop"
proof -
  let ?d = "int step"
  have d: "0 < ?d" using assms by simp
  have "k < length (py_range stop step) \<longleftrightarrow> int k + 1 \<le> (stop + ?d - 1) div ?d"
    by (auto simp: py_range_def)
  also have "\<dots> \<longleftrightarrow> (int k + 1) * ?d \<le> stop + ?d - 1"
    by (rule int_le_div_iff [OF d])
  also have "\<dots> \<longleftrightarrow> int (k * step) < stop"
  proof -
    have "(int k + 1) * ?d = int (k * step) + ?d" by (simp add: algebra_simps)
    then show ?thesis by linarith
  qed
  finally show ?thesis .
qed

lemma py_range_nth:
  "k < length (py_range stop step) \<Longrightarrow> py_range stop step ! k = k * step"
  by (simp add: py_range_def)

lemma py_range_mem:
  assumes "0 < step"
  shows "x \<in> set (py_range stop step) \<longleftrightarrow> (\<exists>k. x = k * step \<and> int x < stop)"
proof
  assume "x \<in> set (py_range stop step)"
  then obtain k where k: "k < length (py_range stop step)" "x = py_range stop step ! k"
    by (auto simp: in_set_conv_nth)
  then have "x = k * step" by (simp add: py_range_nth)
  moreover have "int (k * step) < stop" using k py_range_length [OF assms] by blast
  ultimately show "\<exists>k. x = k * step \<and> int x < stop" by blast
next
  assume "\<exists>k. x = k * step \<and> int x < stop"
  then obtain k where k: "x = k * step" "int (k * step) < stop" by blast
  then have "k < length (py_range stop step)" using py_range_length [OF assms] by blast
  then show "x \<in> set (py_range stop step)" using k py_range_nth by (metis nth_mem)
qed

lemma py_range_distinct:
  assumes "0 < step"
  shows "distinct (py_range stop step)"
  unfolding py_range_def using assms by (auto simp: distinct_map inj_on_def)


lemma py_range_single:
  assumes "0 < stop" "stop \<le> int step"
  shows "py_range stop step = [0]"
proof -
  have s: "0 < step" using assms by simp
  have "length (py_range stop step) = 1"
  proof -
    have "0 < length (py_range stop step)" using py_range_length [OF s, of 0 stop] assms by simp
    moreover have "\<not> 1 < length (py_range stop step)"
      using py_range_length [OF s, of 1 stop] assms by simp
    ultimately show ?thesis by linarith
  qed
  moreover have "py_range stop step ! 0 = 0"
    using calculation by (simp add: py_range_nth)
  ultimately show ?thesis
    by (metis One_nat_def length_0_conv length_Suc_conv nth_Cons_0)
qed

lemma py_range_cover:
  assumes "0 < step" "i < n"
  shows "\<exists>!x. x \<in> set (py_range (int n) step) \<and> x \<le> i \<and> i < min (x + step) n"
proof (rule ex1I [of _ "(i div step) * step"])
  let ?x = "(i div step) * step"
  have le: "?x \<le> i" by simp
  have "i mod step < step" using assms(1) by simp
  moreover have "i = ?x + i mod step" by simp
  ultimately have lt: "i < ?x + step" by linarith
  have "?x < n" using le assms(2) by linarith
  then have "int ?x < int n" by (simp only: of_nat_less_iff)
  then have "?x \<in> set (py_range (int n) step)"
    unfolding py_range_mem [OF assms(1)] by blast
  then show "?x \<in> set (py_range (int n) step) \<and> ?x \<le> i \<and> i < min (?x + step) n"
    using le lt assms(2) by simp
next
  fix x assume x: "x \<in> set (py_range (int n) step) \<and> x \<le> i \<and> i < min (x + step) n"
  then obtain k where k: "x = k * step" unfolding py_range_mem [OF assms(1)] by blast
  have "k * step \<le> i" "i < k * step + step" using x k by simp_all
  then have "step * k \<le> i" "i < step * Suc k" by (simp_all add: mult.commute)
  then have "i div step = k" by (rule div_nat_eqI)
  then show "x = (i div step) * step" using k by simp
qed

subsection \<open>The blocks of the segmented threshold\<close>

lemma segment_size_pos: "0 < segment_size n k"
  by (simp add: segment_size_def)

lemma segment_offsets_mem:
  assumes "0 < sh" "0 < sw"
  shows "(vo, ho) \<in> set (segment_offsets img sh sw) \<longleftrightarrow>
           vo \<in> set (py_range (int (nrows img)) sh) \<and> ho \<in> set (py_range (int (ncols img)) sw)"
  by (simp add: segment_offsets_def)

lemma segment_offsets_inside:
  assumes "0 < sh" "0 < sw" "(vo, ho) \<in> set (segment_offsets img sh sw)"
  shows "vo < nrows img \<and> ho < ncols img"
  using assms by (auto simp: segment_offsets_def py_range_mem)

lemma segment_offsets_cover:
  assumes "0 < sh" "0 < sw" "i < nrows img" "j < ncols img"
  shows "\<exists>!b. b \<in> set (segment_offsets img sh sw) \<and>
              (i, j) \<in> slice_indices img (fst b) (fst b + sh) (snd b) (snd b + sw)"
proof -
  obtain vo where vo: "vo \<in> set (py_range (int (nrows img)) sh)" "vo \<le> i" "i < min (vo + sh) (nrows img)"
    and vo_u: "\<And>x. x \<in> set (py_range (int (nrows img)) sh) \<and> x \<le> i \<and> i < min (x + sh) (nrows img) \<Longrightarrow> x = vo"
    using py_range_cover [OF assms(1,3)] by blast
  obtain ho where ho: "ho \<in> set (py_range (int (ncols img)) sw)" "ho \<le> j" "j < min (ho + sw) (ncols img)"
    and ho_u: "\<And>x. x \<in> set (py_range (int (ncols img)) sw) \<and> x \<le> j \<and> j < min (x + sw) (ncols img) \<Longrightarrow> x = ho"
    using py_range_cover [OF assms(2,4)] by blast
  show ?thesis
  proof (rule ex1I [of _ "(vo, ho)"])
    show "(vo, ho) \<in> set (segment_offsets img sh sw) \<and>
          (i, j) \<in> slice_indices img (fst (vo, ho)) (fst (vo, ho) + sh) (snd (vo, ho)) (snd (vo, ho) + sw)"
      using vo ho by (simp add: segment_offsets_def slice_indices_def)
  next
    fix b assume b: "b \<in> set (segment_offsets img sh sw) \<and>
          (i, j) \<in> slice_indices img (fst b) (fst b + sh) (snd b) (snd b + sw)"
    then have "fst b \<in> set (py_range (int (nrows img)) sh) \<and> fst b \<le> i \<and> i < min (fst b + sh) (nrows img)"
      and "snd b \<in> set (py_range (int (ncols img)) sw) \<and> snd b \<le> j \<and> j < min (snd b + sw) (ncols img)"
      by (cases b; simp add: segment_offsets_def slice_indices_def)+
    then have "fst b = vo" "snd b = ho" using vo_u ho_u by blast+
    then show "b = (vo, ho)" by (cases b) simp
  qed
qed

lemma slice_indices_inside:
  "slice_indices a r0 r1 c0 c1 \<subseteq> {0..<nrows a} \<times> {0..<ncols a}"
  by (auto simp: slice_indices_def)

lemma slice_indices_nonempty:
  "r0 < nrows a \<Longrightarrow> r0 < r1 \<Longrightarrow> c0 < ncols a \<Longrightarrow> c0 < c1 \<Longrightarrow> slice_indices a r0 r1 c0 c1 \<noteq> {}"
  by (auto simp: slice_indices_def)

lemma segment_size_ceiling:
  assumes "0 < n"
  shows "int (segment_size h n) = \<lceil>(of_nat h :: rat) / of_nat n\<rceil> + (if n dvd h then 1 else 0)"
proof -
  have "\<lceil>(of_nat h :: rat) / of_nat n\<rceil> = \<lceil>(of_int (int h) :: rat) / of_int (int n)\<rceil>" by simp
  also have "\<dots> = - (- int h div int n)" by (rule ceiling_divide_eq_div)
  also have "\<dots> = (if int h mod int n = 0 then int h div int n else int h div int n + 1)"
    using assms by (simp add: zdiv_zminus1_eq_if)
  finally have c: "\<lceil>(of_nat h :: rat) / of_nat n\<rceil>
       = (if int h mod int n = 0 then int h div int n else int h div int n + 1)" .
  have d: "n dvd h \<longleftrightarrow> int h mod int n = 0"
    by (metis int_dvd_int_iff mod_eq_0_iff_dvd)
  show ?thesis unfolding c d by (simp add: segment_size_def zdiv_int)
qed

text \<open>
  Claim C3 (a defect of the code). The source computes the block size as
  \<open>extent // segments + 1\<close> under the comment "take ceiling". Where the number of
  segments divides the extent this is one more than the ceiling: for an image of 4 rows
  and 4 columns and 4 segments each way the block size is 2, not \<open>\<lceil>4 / 4\<rceil> = 1\<close>,
  and the image is cut into 4 blocks instead of the 16 that the docstring announces
  (\<open>segment_size_ceiling\<close> is the general relation).
\<close>

theorem segment_size_not_ceiling:
  "segment_size 4 4 = 2 \<and> \<lceil>(4 :: rat) / 4\<rceil> = 1 \<and>
   length (segment_offsets (full 4 4 (0 :: 8 word)) (segment_size 4 4) (segment_size 4 4)) = 4"
  by (simp add: segment_size_def segment_offsets_def py_range_def)

lemma segment_blocks_distinct:
  "0 < sh \<Longrightarrow> 0 < sw \<Longrightarrow> distinct (segment_offsets img sh sw)"
  unfolding segment_offsets_def by (intro distinct_product py_range_distinct)

lemma segment_blocks_inside:
  assumes "0 < sh" "0 < sw" "b \<in> set (segment_offsets img sh sw)"
  shows "fst b < nrows img \<and> snd b < ncols img \<and> block_region img sh sw b \<noteq> {} \<and>
         block_region img sh sw b \<subseteq> {0..<nrows img} \<times> {0..<ncols img}"
proof -
  have "(fst b, snd b) \<in> set (segment_offsets img sh sw)" using assms(3) by simp
  then have "fst b < nrows img \<and> snd b < ncols img"
    by (rule segment_offsets_inside [OF assms(1,2)])
  then show ?thesis
    unfolding block_region_def using assms(1,2)
    by (simp add: slice_indices_nonempty slice_indices_inside)
qed

lemma segment_blocks_cover:
  assumes "0 < sh" "0 < sw" "i < nrows img" "j < ncols img"
  shows "\<exists>!b. b \<in> set (segment_offsets img sh sw) \<and> (i, j) \<in> block_region img sh sw b"
  unfolding block_region_def by (rule segment_offsets_cover [OF assms])

lemma segment_blocks_disjoint:
  assumes "0 < sh" "0 < sw"
    and "b \<in> set (segment_offsets img sh sw)" "b' \<in> set (segment_offsets img sh sw)" "b \<noteq> b'"
  shows "block_region img sh sw b \<inter> block_region img sh sw b' = {}"
proof (rule ccontr)
  assume "block_region img sh sw b \<inter> block_region img sh sw b' \<noteq> {}"
  then obtain i j where ij: "(i, j) \<in> block_region img sh sw b" "(i, j) \<in> block_region img sh sw b'"
    by auto
  then have "i < nrows img" "j < ncols img"
    using segment_blocks_inside [OF assms(1-3)] by auto
  then have "\<exists>!b. b \<in> set (segment_offsets img sh sw) \<and> (i, j) \<in> block_region img sh sw b"
    by (rule segment_blocks_cover [OF assms(1,2)])
  then show False using ij assms(3-5) by blast
qed

text \<open>
  Claim C6. For a non-empty image and segment counts of at least 1, the blocks that
  \<open>segmented_threshold\<close> traverses are distinct, each block starts inside the image
  and the cells its slice addresses (numpy clips the end of a slice to the shape) are a
  non-empty set of cells of the image, two different blocks share no cell, and every pixel
  of the image lies in exactly one block. (\<open>segmented_threshold_cells\<close> below adds
  that every cell of the returned mask holds the value that the threshold of its block
  gives it.)
\<close>

theorem segments_partition_image:
  fixes img :: "'a::len word ndarray"
  assumes "0 < nrows img" and "0 < ncols img"
    and "1 \<le> num_vertical_segments" and "1 \<le> num_horizontal_segments"
  shows "let sh = segment_size (nrows img) (nat num_vertical_segments);
             sw = segment_size (ncols img) (nat num_horizontal_segments);
             blocks = segment_offsets img sh sw
         in distinct blocks \<and>
            (\<forall>b\<in>set blocks. fst b < nrows img \<and> snd b < ncols img \<and>
                             block_region img sh sw b \<noteq> {} \<and>
                             block_region img sh sw b \<subseteq> {0..<nrows img} \<times> {0..<ncols img}) \<and>
            (\<forall>b\<in>set blocks. \<forall>b'\<in>set blocks.
               b \<noteq> b' \<longrightarrow> block_region img sh sw b \<inter> block_region img sh sw b' = {}) \<and>
            (\<forall>i<nrows img. \<forall>j<ncols img.
               \<exists>!b. b \<in> set blocks \<and> (i, j) \<in> block_region img sh sw b)"
  unfolding Let_def
proof (intro conjI ballI allI impI)
  let ?sh = "segment_size (nrows img) (nat num_vertical_segments)"
  let ?sw = "segment_size (ncols img) (nat num_horizontal_segments)"
  show "distinct (segment_offsets img ?sh ?sw)"
    by (rule segment_blocks_distinct [OF segment_size_pos segment_size_pos])
  fix b assume b: "b \<in> set (segment_offsets img ?sh ?sw)"
  show "fst b < nrows img" "snd b < ncols img" "block_region img ?sh ?sw b \<noteq> {}"
    "block_region img ?sh ?sw b \<subseteq> {0..<nrows img} \<times> {0..<ncols img}"
    using segment_blocks_inside [OF segment_size_pos segment_size_pos b] by simp_all
  fix b' assume "b' \<in> set (segment_offsets img ?sh ?sw)" "b \<noteq> b'"
  then show "block_region img ?sh ?sw b \<inter> block_region img ?sh ?sw b' = {}"
    by (rule segment_blocks_disjoint [OF segment_size_pos segment_size_pos b])
next
  fix i j assume "i < nrows img" "j < ncols img"
  then show "\<exists>!b. b \<in> set (segment_offsets img (segment_size (nrows img) (nat num_vertical_segments))
                            (segment_size (ncols img) (nat num_horizontal_segments))) \<and>
                 (i, j) \<in> block_region img (segment_size (nrows img) (nat num_vertical_segments))
                            (segment_size (ncols img) (nat num_horizontal_segments)) b"
    by (rule segment_blocks_cover [OF segment_size_pos segment_size_pos])
qed

theorem segments_partition_image_witness:
  "distinct (segment_offsets (full 3 3 (0 :: 8 word)) (segment_size 3 2) (segment_size 3 2)) \<and>
   (\<exists>!b. b \<in> set (segment_offsets (full 3 3 (0 :: 8 word)) (segment_size 3 2) (segment_size 3 2)) \<and>
       (1, 2) \<in> block_region (full 3 3 (0 :: 8 word)) (segment_size 3 2) (segment_size 3 2) b)"
  using segments_partition_image [of "full 3 3 (0 :: 8 word)" 2 2]
  by (simp add: Let_def)

subsection \<open>One block and one window\<close>

lemma assign_slice_whole:
  assumes "wf_array a" "wf_array src" "nrows src = nrows a" "ncols src = ncols a"
    and "nrows a \<le> r1" "ncols a \<le> c1"
  shows "assign_slice a 0 r1 0 c1 src = src"
proof (rule array_eqI)
  show "wf_array (assign_slice a 0 r1 0 c1 src)"
    unfolding assign_slice_def by (rule wf_map_slice [OF assms(1)])
  show "wf_array src" by (rule assms(2))
  show "nrows (assign_slice a 0 r1 0 c1 src) = nrows src"
    and "ncols (assign_slice a 0 r1 0 c1 src) = ncols src"
    using assms(3,4) by (simp_all add: assign_slice_def)
  fix i j assume "i < nrows (assign_slice a 0 r1 0 c1 src)" "j < ncols (assign_slice a 0 r1 0 c1 src)"
  then have ij: "i < nrows a" "j < ncols a" by (simp_all add: assign_slice_def)
  then have "(i, j) \<in> slice_indices a 0 r1 0 c1" using assms(5,6) by (simp add: slice_indices_def)
  then show "cells (assign_slice a 0 r1 0 c1 src) ! i ! j = cells src ! i ! j"
    unfolding assign_slice_def by (simp add: cell_map_slice [OF assms(1) ij])
qed

lemma add_slice_full:
  assumes "h \<le> r1" "w \<le> c1"
  shows "add_slice g (full h w v) 0 r1 0 c1 = full h w (g v)"
proof (rule array_eqI)
  show "wf_array (add_slice g (full h w v) 0 r1 0 c1)"
    unfolding add_slice_def by (rule wf_map_slice) simp
  show "wf_array (full h w (g v))" by simp
  show "nrows (add_slice g (full h w v) 0 r1 0 c1) = nrows (full h w (g v))"
    and "ncols (add_slice g (full h w v) 0 r1 0 c1) = ncols (full h w (g v))"
    by (simp_all add: add_slice_def)
  fix i j assume "i < nrows (add_slice g (full h w v) 0 r1 0 c1)" "j < ncols (add_slice g (full h w v) 0 r1 0 c1)"
  then have ij: "i < h" "j < w" by (simp_all add: add_slice_def)
  then have "(i, j) \<in> slice_indices (full h w v) 0 r1 0 c1" using assms by (simp add: slice_indices_def)
  then show "cells (add_slice g (full h w v) 0 r1 0 c1) ! i ! j = cells (full h w (g v)) ! i ! j"
    unfolding add_slice_def using ij by (simp add: cell_map_slice cell_full)
qed

lemma sum_list_concat_replicate:
  fixes f :: "'a \<Rightarrow> rat"
  shows "sum_list (map f (concat (replicate h (replicate w x)))) = of_nat (h * w) * f x"
  by (induction h) (simp_all add: sum_list_replicate algebra_simps)

lemma array_mean_full:
  "h * w \<noteq> 0 \<Longrightarrow> array_mean (full h w x) = to_float x"
  by (simp add: array_mean_def to_float_def full_def array_size_def sum_list_concat_replicate)

lemma divide_arrays_full:
  "divide_arrays (full h w a) (full h w c) = full h w (fdiv a c)"
  by (simp add: divide_arrays_def full_def zip_replicate)

lemma astype_float_full: "astype_float (full h w x) = full h w (to_float x)"
  by (simp add: astype_float_def full_def)

lemma fold_err_single: "fold_err f [x] s = f s x"
  by (simp split: sum.splits)

lemma threshold_full_like:
  "array_size img \<noteq> 0 \<Longrightarrow> \<exists>v. threshold img = Inr (full (nrows img) (ncols img) v)"
  unfolding threshold_nonempty full_like_def by blast


text \<open>
  Claim C7. For a non-empty image, \<open>segmented_threshold\<close> with one segment each way
  returns the mask that \<open>threshold\<close> returns: the same shape and the same value in
  every cell.
\<close>

theorem segmented_one_by_one_is_global:
  fixes img :: "'a::len word ndarray"
  assumes "wf_array img" and "array_size img \<noteq> 0"
  shows "segmented_threshold img 1 1 = threshold img \<and> (\<exists>m. threshold img = Inr m)"
proof -
  let ?h = "nrows img" and ?w = "ncols img"
  have hw: "0 < ?h" "0 < ?w" using assms(2) by (simp_all add: array_size_def)
  obtain v where th: "threshold img = Inr (full ?h ?w v)"
    using threshold_full_like [OF assms(2)] by blast
  have offs: "segment_offsets img (?h + 1) (?w + 1) = [(0, 0)]"
    using hw by (simp add: segment_offsets_def py_range_single)
  have sl: "slice img 0 (?h + 1) 0 (?w + 1) = img"
    by (rule slice_whole [OF assms(1)]) simp_all
  have asg: "assign_slice (zeros_like img) 0 (?h + 1) 0 (?w + 1) (full ?h ?w v) = full ?h ?w v"
    by (rule assign_slice_whole) (simp_all add: zeros_like_def)
  have "segmented_threshold img 1 1 =
          fold_err (segment_step img (?h + 1) (?w + 1)) [(0, 0)] (zeros_like img)"
    using offs by (simp add: segmented_threshold_def segment_size_def)
  also have "\<dots> = segment_step img (?h + 1) (?w + 1) (zeros_like img) (0, 0)"
    by (rule fold_err_single)
  also have "\<dots> = Inr (full ?h ?w v)"
    using sl th asg by (simp add: segment_step_def)
  finally show ?thesis using th by simp
qed

theorem segmented_one_by_one_is_global_witness:
  "segmented_threshold \<lparr>nrows = 1, ncols = 2, cells = [[10, 200 :: 8 word]]\<rparr> 1 1
     = threshold \<lparr>nrows = 1, ncols = 2, cells = [[10, 200 :: 8 word]]\<rparr>"
  using segmented_one_by_one_is_global [of "\<lparr>nrows = 1, ncols = 2, cells = [[10, 200 :: 8 word]]\<rparr>"]
  by (simp add: wf_array_def array_size_def)

lemma window_full_image:
  fixes img :: "'a::len word ndarray"
  assumes "wf_array img" and "array_size img \<noteq> 0"
    and "1 \<le> vertical_stride" and "1 \<le> horizontal_stride"
  shows "window_offsets img (nrows img) (ncols img) (nat vertical_stride) (nat horizontal_stride) = [(0, 0)]"
    and "\<exists>m. threshold img = Inr m \<and>
          sliding_window_threshold img (int (nrows img)) (int (ncols img))
            vertical_stride horizontal_stride = Inr (astype_float m)"
proof -
  let ?h = "nrows img" and ?w = "ncols img"
  let ?vs = "nat vertical_stride" and ?hs = "nat horizontal_stride"
  have hw: "0 < ?h" "0 < ?w" using assms(2) by (simp_all add: array_size_def)
  obtain v where th: "threshold img = Inr (full ?h ?w v)"
    using threshold_full_like [OF assms(2)] by blast
  show offs: "window_offsets img ?h ?w ?vs ?hs = [(0, 0)]"
    using assms(3,4) by (simp add: window_offsets_def py_range_single)
  have sl: "slice img 0 ?h 0 ?w = img"
    by (rule slice_whole [OF assms(1)]) simp_all
  have mean: "array_mean (full ?h ?w v) = to_float v"
    using hw by (intro array_mean_full) simp
  have "window_accumulate img ?h ?w ?vs ?hs =
          window_step img ?h ?w (full ?h ?w (Fin 0), zeros_like img) (0, 0)"
    unfolding window_accumulate_def offs by (rule fold_err_single)
  also have "\<dots> = Inr (add_slice (\<lambda>x. fadd x (to_float v)) (full ?h ?w (Fin 0)) 0 ?h 0 ?w,
                        add_slice (\<lambda>x. x + 1) (full ?h ?w 0) 0 ?h 0 ?w)"
    using sl th mean by (simp add: window_step_def zeros_like_def)
  also have "\<dots> = Inr (full ?h ?w (to_float v), full ?h ?w 1)"
    by (simp add: add_slice_full to_float_def)
  finally have acc: "window_accumulate img ?h ?w ?vs ?hs = Inr (full ?h ?w (to_float v), full ?h ?w 1)" .
  have "fdiv (to_float v) (1 :: 'a word) = to_float v"
    by (simp add: to_float_def)
  then have "sliding_window_threshold img (int ?h) (int ?w) vertical_stride horizontal_stride
          = Inr (full ?h ?w (to_float v))"
    using hw assms(3,4) acc by (simp add: sliding_window_threshold_def divide_arrays_full)
  then show "\<exists>m. threshold img = Inr m \<and>
          sliding_window_threshold img (int ?h) (int ?w) vertical_stride horizontal_stride
            = Inr (astype_float m)"
    using th by (simp add: astype_float_full)
qed

text \<open>
  Claim C8. For a non-empty image, a window of the size of the image and strides of at
  least the size of the image, \<open>sliding_window_threshold\<close> evaluates exactly one
  window, at offset (0, 0), and returns the mask of \<open>threshold\<close> converted to floating
  point.
\<close>

theorem full_window_is_global:
  fixes img :: "'a::len word ndarray"
  assumes "wf_array img" and "array_size img \<noteq> 0"
    and "int (nrows img) \<le> vertical_stride" and "int (ncols img) \<le> horizontal_stride"
  shows "window_offsets img (nrows img) (ncols img) (nat vertical_stride) (nat horizontal_stride) = [(0, 0)] \<and>
         (\<exists>m. threshold img = Inr m \<and>
            sliding_window_threshold img (int (nrows img)) (int (ncols img))
              vertical_stride horizontal_stride = Inr (astype_float m))"
proof -
  have "0 < nrows img" "0 < ncols img" using assms(2) by (simp_all add: array_size_def)
  then have "1 \<le> vertical_stride" "1 \<le> horizontal_stride" using assms(3,4) by linarith+
  then show ?thesis using window_full_image [OF assms(1,2)] by blast
qed

theorem full_window_is_global_witness:
  "sliding_window_threshold \<lparr>nrows = 1, ncols = 2, cells = [[10, 200 :: 8 word]]\<rparr> 1 2 1 2
     = Inr \<lparr>nrows = 1, ncols = 2, cells = [[Fin 10, Fin 10]]\<rparr>"
proof -
  let ?img = "\<lparr>nrows = 1, ncols = 2, cells = [[10, 200 :: 8 word]]\<rparr>"
  have "threshold ?img = Inr \<lparr>nrows = 1, ncols = 2, cells = [[10, 10]]\<rparr>"
    by (rule threshold_10_200)
  then show ?thesis
    using full_window_is_global [of ?img 1 2]
    by (simp add: wf_array_def array_size_def astype_float_def to_float_def)
qed

subsection \<open>Empty images\<close>










subsection \<open>The accumulators of the sliding window\<close>

lemma shape_add_slice [simp]:
  "nrows (add_slice g a r0 r1 c0 c1) = nrows a"
  "ncols (add_slice g a r0 r1 c0 c1) = ncols a"
  by (simp_all add: add_slice_def)

lemma wf_add_slice: "wf_array a \<Longrightarrow> wf_array (add_slice g a r0 r1 c0 c1)"
  unfolding add_slice_def by (rule wf_map_slice)

lemma window_step_ok:
  fixes img :: "'a::len word ndarray"
  assumes "vo < nrows img" "ho < ncols img" "0 < wh" "0 < ww" "acc_ok img acc"
  shows "\<exists>acc'. window_step img wh ww acc (vo, ho) = Inr acc' \<and> acc_ok img acc' \<and>
           (\<forall>i<nrows img. \<forall>j<ncols img.
              cells (snd acc') ! i ! j =
                cells (snd acc) ! i ! j + (if covers wh ww i j (vo, ho) then 1 else 0))"
proof -
  obtain tm nr where acc: "acc = (tm, nr)" by (cases acc)
  let ?win = "slice img vo (vo + wh) ho (ho + ww)"
  have ne: "array_size ?win \<noteq> 0" using assms(1-4) by (intro array_size_slice) simp_all
  then obtain v where th: "threshold ?win = Inr (full (nrows ?win) (ncols ?win) v)"
    using threshold_full_like by blast
  have "nrows ?win * ncols ?win \<noteq> 0" using ne by (simp add: array_size_def)
  then have mean: "array_mean (full (nrows ?win) (ncols ?win) v) = to_float v"
    by (rule array_mean_full)
  let ?tm' = "add_slice (\<lambda>x. fadd x (to_float v)) tm vo (vo + wh) ho (ho + ww)"
  let ?nr' = "add_slice (\<lambda>x. x + 1) nr vo (vo + wh) ho (ho + ww)"
  have step: "window_step img wh ww acc (vo, ho) = Inr (?tm', ?nr')"
    unfolding window_step_def acc using th mean by simp
  have wf: "wf_array tm" "wf_array nr" and sh: "nrows tm = nrows img" "ncols tm = ncols img"
      "nrows nr = nrows img" "ncols nr = ncols img"
    and fin: "\<And>i j. i < nrows img \<Longrightarrow> j < ncols img \<Longrightarrow> \<exists>q. cells tm ! i ! j = Fin q"
    using assms(5) by (simp_all add: acc_ok_def acc)
  have cell_nr: "cells ?nr' ! i ! j = cells nr ! i ! j + (if covers wh ww i j (vo, ho) then 1 else 0)"
    if "i < nrows img" "j < ncols img" for i j
    unfolding add_slice_def using that sh
    by (simp add: cell_map_slice [OF wf(2)] slice_indices_def covers_def)
  have cell_tm: "\<exists>q. cells ?tm' ! i ! j = Fin q" if ij: "i < nrows img" "j < ncols img" for i j
  proof -
    obtain q where "cells tm ! i ! j = Fin q" using fin [OF ij] by blast
    then show ?thesis
      unfolding add_slice_def using ij sh
      by (simp add: cell_map_slice [OF wf(1)] to_float_def)
  qed
  have "acc_ok img (?tm', ?nr')"
    unfolding acc_ok_def using wf sh cell_tm by (simp add: wf_add_slice)
  then show ?thesis using step cell_nr by (simp add: acc)
qed

lemma window_fold_ok:
  fixes img :: "'a::len word ndarray"
  assumes "0 < wh" "0 < ww"
    and "\<forall>b\<in>set offs. fst b < nrows img \<and> snd b < ncols img"
    and "acc_ok img acc"
  shows "\<exists>acc'. fold_err (window_step img wh ww) offs acc = Inr acc' \<and> acc_ok img acc' \<and>
           (\<forall>i<nrows img. \<forall>j<ncols img.
              cells (snd acc') ! i ! j =
                cells (snd acc) ! i ! j + of_nat (length (filter (covers wh ww i j) offs)))"
  using assms(3,4)
proof (induction offs arbitrary: acc)
  case Nil
  then show ?case by simp
next
  case (Cons b offs)
  obtain vo ho where b: "b = (vo, ho)" by (cases b)
  then have "vo < nrows img" "ho < ncols img" using Cons.prems(1) by simp_all
  then obtain acc1 where s1: "window_step img wh ww acc (vo, ho) = Inr acc1" and ok1: "acc_ok img acc1"
    and c1: "\<And>i j. i < nrows img \<Longrightarrow> j < ncols img \<Longrightarrow>
              cells (snd acc1) ! i ! j = cells (snd acc) ! i ! j + (if covers wh ww i j (vo, ho) then 1 else 0)"
    using window_step_ok [OF _ _ assms(1,2) Cons.prems(2)] by blast
  have "\<forall>b\<in>set offs. fst b < nrows img \<and> snd b < ncols img" using Cons.prems(1) by simp
  then obtain acc2 where s2: "fold_err (window_step img wh ww) offs acc1 = Inr acc2" and ok2: "acc_ok img acc2"
    and c2: "\<And>i j. i < nrows img \<Longrightarrow> j < ncols img \<Longrightarrow>
              cells (snd acc2) ! i ! j = cells (snd acc1) ! i ! j + of_nat (length (filter (covers wh ww i j) offs))"
    using Cons.IH [OF _ ok1] by blast
  have "fold_err (window_step img wh ww) (b # offs) acc = Inr acc2" using s1 s2 b by simp
  moreover have "cells (snd acc2) ! i ! j =
      cells (snd acc) ! i ! j + of_nat (length (filter (covers wh ww i j) (b # offs)))"
    if "i < nrows img" "j < ncols img" for i j
    using c1 [OF that] c2 [OF that] b by simp
  ultimately show ?case using ok2 by blast
qed

lemma acc_ok_init: "acc_ok img (full (nrows img) (ncols img) (Fin 0), zeros_like img)"
  by (simp add: acc_ok_def zeros_like_def cell_full)

lemma window_accumulate_ok:
  fixes img :: "'a::len word ndarray"
  assumes "0 < wh" "0 < ww"
    and "\<forall>b\<in>set (window_offsets img wh ww vs hs). fst b < nrows img \<and> snd b < ncols img"
  shows "\<exists>acc. window_accumulate img wh ww vs hs = Inr acc \<and> acc_ok img acc \<and>
           (\<forall>i<nrows img. \<forall>j<ncols img.
              cells (snd acc) ! i ! j =
                of_nat (length (filter (covers wh ww i j) (window_offsets img wh ww vs hs))))"
proof -
  obtain acc where "fold_err (window_step img wh ww) (window_offsets img wh ww vs hs)
                      (full (nrows img) (ncols img) (Fin 0), zeros_like img) = Inr acc"
    and "acc_ok img acc"
    and "\<And>i j. i < nrows img \<Longrightarrow> j < ncols img \<Longrightarrow>
           cells (snd acc) ! i ! j =
             cells (snd (full (nrows img) (ncols img) (Fin 0), zeros_like img)) ! i ! j
               + of_nat (length (filter (covers wh ww i j) (window_offsets img wh ww vs hs)))"
    using window_fold_ok [OF assms acc_ok_init] by blast
  then show ?thesis by (simp add: window_accumulate_def zeros_like_def cell_full)
qed

lemma cell_divide_arrays:
  assumes "wf_array s" "wf_array c" "nrows c = nrows s" "ncols c = ncols s" "i < nrows s" "j < ncols s"
  shows "cells (divide_arrays s c) ! i ! j = fdiv (cells s ! i ! j) (cells c ! i ! j)"
  using assms by (simp add: divide_arrays_def wf_array_length wf_array_row)

lemma fdiv_zero_not_finite: "fdiv (Fin q) 0 \<in> {NaN, PInf, NInf}"
  by simp

subsection \<open>Coverage and counts\<close>

lemma window_range_inside:
  assumes "0 < s" "s \<le> wh" "wh \<le> h" "x \<in> set (py_range (int h - int wh + int s) s)"
  shows "x < h"
proof -
  have "int x < int h - int wh + int s" using assms(4) py_range_mem [OF assms(1)] by blast
  then show ?thesis using assms(2,3) by linarith
qed

lemma window_range_cover:
  assumes "0 < s" "s \<le> wh" "wh \<le> h" "i < h"
  shows "\<exists>x\<in>set (py_range (int h - int wh + int s) s). x \<le> i \<and> i < x + wh"
proof (cases "(i div s) * s < h - wh + s")
  case True
  let ?x = "(i div s) * s"
  have "i mod s < s" using assms(1) by simp
  moreover have "i = ?x + i mod s" by simp
  ultimately have "i < ?x + s" by linarith
  then have "?x \<le> i \<and> i < ?x + wh" using assms(2) by simp
  moreover have "int ?x < int h - int wh + int s" using True assms(3) by linarith
  then have "?x \<in> set (py_range (int h - int wh + int s) s)"
    unfolding py_range_mem [OF assms(1)] by blast
  ultimately show ?thesis by blast
next
  case False
  let ?n = "h - wh"
  let ?q = "(?n + s - 1) div s"
  let ?x = "?q * s"
  have m: "(?n + s - 1) mod s < s" using assms(1) by simp
  have e: "?n + s - 1 = ?x + (?n + s - 1) mod s" by simp
  have lo: "?n \<le> ?x" using m e assms(1) by linarith
  have hi: "?x < ?n + s" using e assms(1) by linarith
  have "?x \<le> i"
  proof -
    have "i mod s < s" using assms(1) by simp
    have "?n + s \<le> (i div s) * s" using False by simp
    moreover have "(i div s) * s \<le> i" by simp
    ultimately show ?thesis using hi by linarith
  qed
  moreover have "i < ?x + wh" using lo assms(3,4) by linarith
  moreover have "int ?x < int h - int wh + int s" using hi assms(3) by linarith
  then have "?x \<in> set (py_range (int h - int wh + int s) s)"
    unfolding py_range_mem [OF assms(1)] by blast
  ultimately show ?thesis by blast
qed

lemma window_offsets_inside:
  assumes "0 < vs" "vs \<le> wh" "wh \<le> nrows img" "0 < hs" "hs \<le> ww" "ww \<le> ncols img"
  shows "\<forall>b\<in>set (window_offsets img wh ww vs hs). fst b < nrows img \<and> snd b < ncols img"
  using window_range_inside [OF assms(1-3)] window_range_inside [OF assms(4-6)]
  by (auto simp: window_offsets_def)

lemma window_offsets_cover:
  assumes "0 < vs" "vs \<le> wh" "wh \<le> nrows img" "0 < hs" "hs \<le> ww" "ww \<le> ncols img"
    and "i < nrows img" "j < ncols img"
  shows "\<exists>b\<in>set (window_offsets img wh ww vs hs). covers wh ww i j b"
proof -
  obtain x where "x \<in> set (py_range (int (nrows img) - int wh + int vs) vs)" "x \<le> i" "i < x + wh"
    using window_range_cover [OF assms(1-3) assms(7)] by blast
  moreover obtain y where "y \<in> set (py_range (int (ncols img) - int ww + int hs) hs)" "y \<le> j" "j < y + ww"
    using window_range_cover [OF assms(4-6) assms(8)] by blast
  ultimately have "(x, y) \<in> set (window_offsets img wh ww vs hs) \<and> covers wh ww i j (x, y)"
    by (simp add: window_offsets_def covers_def)
  then show ?thesis by blast
qed



text \<open>
  Under the conditions of claim C10 every pixel is covered by a window
  (\<open>window_offsets_cover\<close>) and each count is the number of covering windows cast to
  the element type of the image (\<open>window_accumulate_ok\<close>). So the counts are positive
  as long as the number of windows stays below \<open>2 ^ w\<close> for an element type of
  \<open>w\<close> bits.
\<close>

lemma window_counts_positive:
  fixes img :: "'a::len word ndarray"
  assumes "0 < vs" "vs \<le> wh" "wh \<le> nrows img" "0 < hs" "hs \<le> ww" "ww \<le> ncols img"
    and small: "length (window_offsets img wh ww vs hs) < 2 ^ LENGTH('a)"
  shows "\<exists>acc. window_accumulate img wh ww vs hs = Inr acc \<and>
           (\<forall>i<nrows img. \<forall>j<ncols img. cells (snd acc) ! i ! j \<noteq> 0)"
proof -
  let ?offs = "window_offsets img wh ww vs hs"
  have wh: "0 < wh" and ww: "0 < ww" using assms(1,2,4,5) by simp_all
  from window_accumulate_ok [OF wh ww window_offsets_inside [OF assms(1-6)]]
  obtain acc where acc: "window_accumulate img wh ww vs hs = Inr acc"
    and cnt: "\<forall>i<nrows img. \<forall>j<ncols img.
                cells (snd acc) ! i ! j = of_nat (length (filter (covers wh ww i j) ?offs))"
    by blast
  have "cells (snd acc) ! i ! j \<noteq> 0" if ij: "i < nrows img" "j < ncols img" for i j
  proof -
    let ?n = "length (filter (covers wh ww i j) ?offs)"
    obtain b where "b \<in> set ?offs" "covers wh ww i j b"
      using window_offsets_cover [OF assms(1-6) ij] by blast
    then have "filter (covers wh ww i j) ?offs \<noteq> []" by (auto simp: filter_empty_conv)
    then have pos: "0 < ?n" by simp
    have "?n \<le> length ?offs" by simp
    then have "?n < 2 ^ LENGTH('a)" using small by linarith
    then have "\<not> 2 ^ LENGTH('a) dvd ?n" using pos by (simp add: nat_dvd_not_less)
    then have "(of_nat ?n :: 'a word) \<noteq> 0" by (simp add: word_of_nat_eq_0_iff)
    then show ?thesis using cnt ij by simp
  qed
  then show ?thesis using acc by blast
qed

text \<open>
  Claim C10 (a defect of the code). The counts are kept in \<open>np.zeros_like(image)\<close>,
  an array of the element type of the image, so a count of an image of unsigned 8-bit
  integers wraps around at 256. On the 31 by 31 test image with a 16 by 16 window and strides of
  1 (stride \<open>\<le>\<close> window \<open>\<le>\<close> image both ways) the pixel (15, 15) is covered by all
  256 windows: its count is 0 and the final division divides by zero there.
\<close>

theorem sliding_window_count_wraps:
  "\<exists>totals counts. window_accumulate (checkerboard 31 31) 16 16 1 1 = Inr (totals, counts) \<and>
      cells counts ! 15 ! 15 = 0 \<and>
      (\<exists>m. sliding_window_threshold (checkerboard 31 31) 16 16 1 1 = Inr m \<and>
           cells m ! 15 ! 15 \<in> {NaN, PInf, NInf})"
proof -
  let ?img = "checkerboard 31 31"
  let ?offs = "window_offsets ?img 16 16 1 1"
  have inside: "\<forall>b\<in>set ?offs. fst b < nrows ?img \<and> snd b < ncols ?img"
    by (rule window_offsets_inside) (simp_all add: checkerboard_def)
  obtain acc where acc: "window_accumulate ?img 16 16 1 1 = Inr acc" and ok: "acc_ok ?img acc"
    and cnt: "\<And>i j. i < nrows ?img \<Longrightarrow> j < ncols ?img \<Longrightarrow>
                cells (snd acc) ! i ! j = of_nat (length (filter (covers 16 16 i j) ?offs))"
    using window_accumulate_ok [of 16 16 ?img 1 1, OF _ _ inside] by auto
  have all: "\<forall>b\<in>set ?offs. covers 16 16 15 15 b"
    by (auto simp: window_offsets_def covers_def py_range_mem checkerboard_def)
  have "length ?offs = 256" by (simp add: window_offsets_def py_range_def checkerboard_def)
  then have "length (filter (covers 16 16 15 15) ?offs) = 256" using all by simp
  then have zero: "cells (snd acc) ! 15 ! 15 = 0"
    using cnt [of 15 15] by (simp add: checkerboard_def)
  have "\<forall>i<nrows ?img. \<forall>j<ncols ?img. \<exists>q. cells (fst acc) ! i ! j = Fin q"
    using ok by (simp add: acc_ok_def)
  then have "\<exists>q. cells (fst acc) ! 15 ! 15 = Fin q" by (simp add: checkerboard_def)
  then obtain q where q: "cells (fst acc) ! 15 ! 15 = Fin q" by blast
  have "cells (divide_arrays (fst acc) (snd acc)) ! 15 ! 15 = fdiv (cells (fst acc) ! 15 ! 15) (cells (snd acc) ! 15 ! 15)"
    using ok by (intro cell_divide_arrays) (simp_all add: acc_ok_def checkerboard_def)
  then have "cells (divide_arrays (fst acc) (snd acc)) ! 15 ! 15 \<in> {NaN, PInf, NInf}"
    using zero q fdiv_zero_not_finite [of q] by simp
  moreover have "sliding_window_threshold ?img 16 16 1 1 = Inr (divide_arrays (fst acc) (snd acc))"
    using acc by (cases acc) (simp add: sliding_window_threshold_def)
  ultimately show ?thesis using acc zero by (cases acc) auto
qed

subsection \<open>Errors on empty and non-empty images\<close>




subsection \<open>The mask of the segmented threshold\<close>

lemma slice_indices_shape:
  "nrows a = nrows b \<Longrightarrow> ncols a = ncols b \<Longrightarrow>
   slice_indices a r0 r1 c0 c1 = slice_indices b r0 r1 c0 c1"
  by (simp add: slice_indices_def)

lemma wf_assign_slice: "wf_array a \<Longrightarrow> wf_array (assign_slice a r0 r1 c0 c1 src)"
  unfolding assign_slice_def by (rule wf_map_slice)

lemma shape_assign_slice [simp]:
  "nrows (assign_slice a r0 r1 c0 c1 src) = nrows a"
  "ncols (assign_slice a r0 r1 c0 c1 src) = ncols a"
  by (simp_all add: assign_slice_def)

lemma cell_assign_slice:
  assumes "wf_array a" "i < nrows a" "j < ncols a"
  shows "cells (assign_slice a r0 r1 c0 c1 src) ! i ! j =
           (if (i, j) \<in> slice_indices a r0 r1 c0 c1 then cells src ! (i - r0) ! (j - c0)
            else cells a ! i ! j)"
  unfolding assign_slice_def by (rule cell_map_slice [OF assms])

lemma segment_fold_cells:
  fixes img :: "'a::len word ndarray"
  assumes "0 < sh" "0 < sw"
    and "\<forall>b\<in>set offs. fst b < nrows img \<and> snd b < ncols img"
    and "distinct offs"
    and "\<forall>b\<in>set offs. \<forall>b'\<in>set offs. b \<noteq> b' \<longrightarrow> block_region img sh sw b \<inter> block_region img sh sw b' = {}"
    and "wf_array m0" "nrows m0 = nrows img" "ncols m0 = ncols img"
  shows "\<exists>m. fold_err (segment_step img sh sw) offs m0 = Inr m \<and>
             wf_array m \<and> nrows m = nrows img \<and> ncols m = ncols img \<and>
             (\<forall>i<nrows img. \<forall>j<ncols img.
                (\<forall>b\<in>set offs. (i, j) \<notin> block_region img sh sw b) \<longrightarrow>
                cells m ! i ! j = cells m0 ! i ! j) \<and>
             (\<forall>b\<in>set offs. \<forall>i<nrows img. \<forall>j<ncols img.
                (i, j) \<in> block_region img sh sw b \<longrightarrow> block_value img sh sw b i j (cells m ! i ! j))"
  using assms(3-8)
proof (induction offs arbitrary: m0)
  case Nil
  then show ?case by simp
next
  case (Cons b offs)
  let ?R = "block_region img sh sw"
  obtain vo ho where b: "b = (vo, ho)" by (cases b)
  have in_b: "vo < nrows img" "ho < ncols img" using Cons.prems(1) b by simp_all
  have "array_size (slice img vo (vo + sh) ho (ho + sw)) \<noteq> 0"
    using in_b assms(1,2) by (intro array_size_slice) simp_all
  then obtain tb where tb: "threshold (slice img vo (vo + sh) ho (ho + sw)) = Inr tb"
    using threshold_full_like by blast
  let ?m1 = "assign_slice m0 vo (vo + sh) ho (ho + sw) tb"
  have step: "segment_step img sh sw m0 b = Inr ?m1" using tb b by (simp add: segment_step_def)
  have wf1: "wf_array ?m1" using Cons.prems(4) by (rule wf_assign_slice)
  have sh1: "nrows ?m1 = nrows img" "ncols ?m1 = ncols img" using Cons.prems(5,6) by simp_all
  have reg: "slice_indices m0 vo (vo + sh) ho (ho + sw) = ?R b"
    unfolding block_region_def b using Cons.prems(5,6) by (simp add: slice_indices_def)
  have c1: "cells ?m1 ! i ! j = (if (i, j) \<in> ?R b then cells tb ! (i - vo) ! (j - ho) else cells m0 ! i ! j)"
    if "i < nrows img" "j < ncols img" for i j
    using cell_assign_slice [OF Cons.prems(4), of i j vo "vo + sh" ho "ho + sw" tb] that Cons.prems(5,6)
    by (simp add: reg)
  have p1: "\<forall>b\<in>set offs. fst b < nrows img \<and> snd b < ncols img" using Cons.prems(1) by simp
  have p2: "distinct offs" using Cons.prems(2) by simp
  have p3: "\<forall>b\<in>set offs. \<forall>b'\<in>set offs. b \<noteq> b' \<longrightarrow> ?R b \<inter> ?R b' = {}"
    using Cons.prems(3) by simp
  from Cons.IH [OF p1 p2 p3 wf1 sh1]
  obtain m where fold: "fold_err (segment_step img sh sw) offs ?m1 = Inr m"
    and wfm: "wf_array m" "nrows m = nrows img" "ncols m = ncols img"
    and keep0: "\<forall>i<nrows img. \<forall>j<ncols img.
                (\<forall>b\<in>set offs. (i, j) \<notin> ?R b) \<longrightarrow> cells m ! i ! j = cells ?m1 ! i ! j"
    and val0: "\<forall>b\<in>set offs. \<forall>i<nrows img. \<forall>j<ncols img.
                (i, j) \<in> ?R b \<longrightarrow> block_value img sh sw b i j (cells m ! i ! j)"
    by (elim exE conjE)
  have keep: "cells m ! i ! j = cells ?m1 ! i ! j"
    if "i < nrows img" "j < ncols img" "\<forall>b\<in>set offs. (i, j) \<notin> ?R b" for i j
    using keep0 that by simp
  have val: "block_value img sh sw b' i j (cells m ! i ! j)"
    if "b' \<in> set offs" "i < nrows img" "j < ncols img" "(i, j) \<in> ?R b'" for b' i j
    using val0 that by simp
  have A: "fold_err (segment_step img sh sw) (b # offs) m0 = Inr m" using step fold by simp
  have B: "cells m ! i ! j = cells m0 ! i ! j"
    if "i < nrows img" "j < ncols img" "\<forall>b'\<in>set (b # offs). (i, j) \<notin> ?R b'" for i j
  proof -
    have "\<forall>b'\<in>set offs. (i, j) \<notin> ?R b'" and nb: "(i, j) \<notin> ?R b" using that(3) by simp_all
    then have "cells m ! i ! j = cells ?m1 ! i ! j" using keep [OF that(1,2)] by simp
    also have "\<dots> = cells m0 ! i ! j" using c1 [OF that(1,2)] nb by simp
    finally show ?thesis .
  qed
  have C: "block_value img sh sw b' i j (cells m ! i ! j)"
    if "b' \<in> set (b # offs)" "i < nrows img" "j < ncols img" "(i, j) \<in> ?R b'" for b' i j
  proof (cases "b' = b")
    case False
    then have "b' \<in> set offs" using that(1) by simp
    then show ?thesis by (rule val [OF _ that(2,3,4)])
  next
    case True
    have "\<forall>b''\<in>set offs. (i, j) \<notin> ?R b''"
    proof
      fix b'' assume m: "b'' \<in> set offs"
      then have "b'' \<noteq> b" using Cons.prems(2) by auto
      then have "?R b \<inter> ?R b'' = {}" using Cons.prems(3) m by simp
      then show "(i, j) \<notin> ?R b''" using that(4) True by blast
    qed
    then have "cells m ! i ! j = cells ?m1 ! i ! j" by (rule keep [OF that(2,3)])
    also have "\<dots> = cells tb ! (i - vo) ! (j - ho)" using c1 [OF that(2,3)] that(4) True by simp
    finally show ?thesis unfolding block_value_def True b using tb by simp
  qed
  show ?case
  proof (intro exI [of _ m] conjI allI impI ballI)
    show "fold_err (segment_step img sh sw) (b # offs) m0 = Inr m" by (rule A)
    show "wf_array m" "nrows m = nrows img" "ncols m = ncols img" by (rule wfm)+
  next
    fix i j assume "i < nrows img" "j < ncols img" "\<forall>b'\<in>set (b # offs). (i, j) \<notin> ?R b'"
    then show "cells m ! i ! j = cells m0 ! i ! j" by (rule B)
  next
    fix b' i j assume "b' \<in> set (b # offs)" "i < nrows img" "j < ncols img" "(i, j) \<in> ?R b'"
    then show "block_value img sh sw b' i j (cells m ! i ! j)" by (rule C)
  qed
qed

lemma segmented_threshold_cells:
  fixes img :: "'a::len word ndarray"
  assumes "1 \<le> nvs" "1 \<le> nhs"
  shows "\<exists>m. segmented_threshold img nvs nhs = Inr m \<and>
             wf_array m \<and> nrows m = nrows img \<and> ncols m = ncols img \<and>
             (\<forall>i<nrows img. \<forall>j<ncols img.
                \<exists>!b. b \<in> set (segment_offsets img (segment_size (nrows img) (nat nvs))
                                                  (segment_size (ncols img) (nat nhs))) \<and>
                     (i, j) \<in> block_region img (segment_size (nrows img) (nat nvs))
                                            (segment_size (ncols img) (nat nhs)) b \<and>
                     block_value img (segment_size (nrows img) (nat nvs))
                       (segment_size (ncols img) (nat nhs)) b i j (cells m ! i ! j))"
proof -
  let ?sh = "segment_size (nrows img) (nat nvs)" and ?sw = "segment_size (ncols img) (nat nhs)"
  let ?offs = "segment_offsets img ?sh ?sw"
  have sh: "0 < ?sh" and sw: "0 < ?sw" by (rule segment_size_pos)+
  have inside: "\<forall>b\<in>set ?offs. fst b < nrows img \<and> snd b < ncols img"
    using segment_blocks_inside [OF sh sw] by blast
  have disj: "\<forall>b\<in>set ?offs. \<forall>b'\<in>set ?offs.
                b \<noteq> b' \<longrightarrow> block_region img ?sh ?sw b \<inter> block_region img ?sh ?sw b' = {}"
    using segment_blocks_disjoint [OF sh sw] by blast
  from segment_fold_cells [OF sh sw inside segment_blocks_distinct [OF sh sw] disj, of "zeros_like img"]
  obtain m where fold: "fold_err (segment_step img ?sh ?sw) ?offs (zeros_like img) = Inr m"
    and wfm: "wf_array m" "nrows m = nrows img" "ncols m = ncols img"
    and val: "\<forall>b\<in>set ?offs. \<forall>i<nrows img. \<forall>j<ncols img.
                (i, j) \<in> block_region img ?sh ?sw b \<longrightarrow> block_value img ?sh ?sw b i j (cells m ! i ! j)"
    by (auto simp: zeros_like_def)
  have res: "segmented_threshold img nvs nhs = Inr m"
    using assms fold by (simp add: segmented_threshold_def Let_def)
  have cells: "\<exists>!b. b \<in> set ?offs \<and> (i, j) \<in> block_region img ?sh ?sw b \<and>
                  block_value img ?sh ?sw b i j (cells m ! i ! j)"
    if ij: "i < nrows img" "j < ncols img" for i j
  proof -
    from segment_blocks_cover [OF sh sw ij]
    obtain b where b: "b \<in> set ?offs" "(i, j) \<in> block_region img ?sh ?sw b"
      and u: "\<And>b'. b' \<in> set ?offs \<and> (i, j) \<in> block_region img ?sh ?sw b' \<Longrightarrow> b' = b"
      by blast
    have "block_value img ?sh ?sw b i j (cells m ! i ! j)" using val b ij by blast
    then show ?thesis using b u by blast
  qed
  show ?thesis using res wfm cells by blast
qed

end
